theory Spec2Isabelle
  imports Main "HOL-Library.Word" "HOL-Library.Signed_Division"
begin

section \<open>Data model of \<open>db/mongodb/mongodb.go\<close>\<close>

text \<open>
  Every \<open>*Client\<close> is an address into a memory of \<open>Client\<close> objects, because the heap
  slice, the value returned by \<open>Ref\<close> and the argument of \<open>UnRef\<close> alias the same objects.
  The embedded \<open>*mongo.Client\<close> is the identity of a driver connection. Go's \<open>int\<close> is
  the 64-bit machine integer for the use count \<open>ref\<close> (\<open>++\<close> and \<open>--\<close> wrap, \<open><\<close> is the
  signed comparison); slice positions are kept as mathematical integers, every comparison
  of the heap code on them written as in the source.
\<close>

type_synonym addr = nat
type_synonym conn = nat

record Client =
  mongo_Client :: conn
  ref :: "64 word"
  index :: int

type_synonym ClientHeap = "addr list"
type_synonym memory = "addr \<Rightarrow> Client"

text \<open>A call either returns or panics; the state reached at the panic is kept beside it.\<close>

datatype 'a outcome = Return 'a | Panic

definition in_range :: "ClientHeap \<Rightarrow> int \<Rightarrow> bool" where
  "in_range h i = (0 \<le> i \<and> i < int (length h))"

definition Len :: "ClientHeap \<Rightarrow> int" where
  "Len h = int (length h)"

text \<open>\<open>h[i].ref < h[j].ref\<close>; an index outside the slice panics.\<close>

definition Less :: "ClientHeap \<Rightarrow> memory \<Rightarrow> int \<Rightarrow> int \<Rightarrow> bool option" where
  "Less h m i j =
     (if in_range h i \<and> in_range h j
      then Some (sint (ref (m (h ! nat i))) < sint (ref (m (h ! nat j))))
      else None)"

text \<open>
  \<open>h[i], h[j] = h[j], h[i]; h[i].index = i; h[j].index = j\<close>: both right-hand sides are
  read before either slot is written, then the two \<open>index\<close> fields are written in order
  through the pointers now stored in the slots.
\<close>

definition Swap :: "ClientHeap \<Rightarrow> memory \<Rightarrow> int \<Rightarrow> int \<Rightarrow> (ClientHeap \<times> memory) option" where
  "Swap h m i j =
     (if in_range h i \<and> in_range h j
      then
        let h1 = h[nat i := h ! nat j, nat j := h ! nat i];
            m1 = m(h1 ! nat i := (m (h1 ! nat i))\<lparr>index := i\<rparr>);
            m2 = m1(h1 ! nat j := (m1 (h1 ! nat j))\<lparr>index := j\<rparr>)
        in Some (h1, m2)
      else None)"

section \<open>The heap algorithms of Go's \<open>container/heap\<close>, over \<open>Less\<close> and \<open>Swap\<close>\<close>

text \<open>
  \<open>heap.Init\<close> and \<open>heap.Fix\<close> belong to the Go standard library; they are written here
  as that package defines them (\<open>up\<close>, \<open>down\<close>, \<open>Fix\<close>, \<open>Init\<close>), calling the \<open>Less\<close> and
  \<open>Swap\<close> of \<open>ClientHeap\<close>. Go's integer division truncates towards zero, so the parent
  of slot 0 is slot 0.
\<close>

function up :: "ClientHeap \<Rightarrow> memory \<Rightarrow> int \<Rightarrow> unit outcome \<times> ClientHeap \<times> memory" where
  "up h m j =
     (let i = (j - 1) sdiv 2 in
      if i = j then (Return (), h, m)
      else
        (case Less h m j i of
           None \<Rightarrow> (Panic, h, m)
         | Some lt \<Rightarrow>
             if \<not> lt then (Return (), h, m)
             else
               (case Swap h m i j of
                  None \<Rightarrow> (Panic, h, m)
                | Some (h', m') \<Rightarrow> up h' m' i)))"
  by pat_completeness auto
termination
proof (relation "measure (\<lambda>(h, m, j). nat j)")
  show "wf (measure (\<lambda>(h, m, j). nat j))" by simp
next
  fix h :: ClientHeap and m :: memory and j i :: int and lt :: bool
    and hm' :: "ClientHeap \<times> memory" and h' :: ClientHeap and m' :: memory
  assume i: "i = (j - 1) sdiv 2" and ne: "i \<noteq> j" and L: "Less h m j i = Some lt"
  from L have "0 \<le> j" by (auto simp: Less_def in_range_def split: if_splits)
  with ne i have "0 < j" by (cases "j = 0") (auto simp: signed_divide_int_def)
  then have "(j - 1) sdiv 2 = (j - 1) div 2"
    by (simp add: signed_divide_int_def sgn_if)
  with i \<open>0 < j\<close> have "0 \<le> i \<and> i < j" by auto
  then show "((h', m', i), (h, m, j)) \<in> measure (\<lambda>(h, m, j). nat j)" by simp
qed

function down_loop :: "ClientHeap \<Rightarrow> memory \<Rightarrow> int \<Rightarrow> int \<Rightarrow> int outcome \<times> ClientHeap \<times> memory" where
  "down_loop h m i n =
     (let j1 = 2 * i + 1 in
      if j1 \<ge> n \<or> j1 < 0 then (Return i, h, m)
      else
        (case (if j1 + 1 < n then Less h m (j1 + 1) j1 else Some False) of
           None \<Rightarrow> (Panic, h, m)
         | Some right \<Rightarrow>
             let j = (if right then j1 + 1 else j1) in
             (case Less h m j i of
                None \<Rightarrow> (Panic, h, m)
              | Some lt \<Rightarrow>
                  if \<not> lt then (Return i, h, m)
                  else
                    (case Swap h m i j of
                       None \<Rightarrow> (Panic, h, m)
                     | Some (h', m') \<Rightarrow> down_loop h' m' j n))))"
  by pat_completeness auto
termination
  by (relation "measure (\<lambda>(h, m, i, n). nat (n - i))") (auto split: if_splits)

text \<open>\<open>down\<close> reports whether the element left its starting slot (\<open>i > i0\<close>).\<close>

definition down :: "ClientHeap \<Rightarrow> memory \<Rightarrow> int \<Rightarrow> int \<Rightarrow> bool outcome \<times> ClientHeap \<times> memory" where
  "down h m i0 n =
     (case down_loop h m i0 n of
        (Return i, h', m') \<Rightarrow> (Return (i > i0), h', m')
      | (Panic, h', m') \<Rightarrow> (Panic, h', m'))"

definition Fix :: "ClientHeap \<Rightarrow> memory \<Rightarrow> int \<Rightarrow> unit outcome \<times> ClientHeap \<times> memory" where
  "Fix h m i =
     (case down h m i (Len h) of
        (Return moved, h', m') \<Rightarrow> if \<not> moved then up h' m' i else (Return (), h', m')
      | (Panic, h', m') \<Rightarrow> (Panic, h', m'))"

function Init_loop :: "ClientHeap \<Rightarrow> memory \<Rightarrow> int \<Rightarrow> int \<Rightarrow> unit outcome \<times> ClientHeap \<times> memory" where
  "Init_loop h m i n =
     (if i \<ge> 0
      then
        (case down h m i n of
           (Return _, h', m') \<Rightarrow> Init_loop h' m' (i - 1) n
         | (Panic, h', m') \<Rightarrow> (Panic, h', m'))
      else (Return (), h, m))"
  by pat_completeness auto
termination
  by (relation "measure (\<lambda>(h, m, i, n). nat (i + 1))") auto

definition Init :: "ClientHeap \<Rightarrow> memory \<Rightarrow> unit outcome \<times> ClientHeap \<times> memory" where
  "Init h m = (let n = Len h in Init_loop h m (n sdiv 2 - 1) n)"

section \<open>The driver and the backing store, as seen from the pool\<close>

text \<open>
  The MongoDB driver is an external collaborator. Each call the source makes to it is
  appended to a trace, and what the driver answers to a call is an input of the model:
  \<open>ping_err\<close> is the value of \<open>s.Ping\<close>, \<open>connect_out\<close> that of \<open>mongo.Connect\<close>, and
  \<open>store_err\<close> a failure of the single store round trip of a derived operation.
\<close>

datatype error = DuplicateKeyError | ErrNoDocuments | DriverError nat

datatype bval = BNull | BInt int | BString string | BDoc "string \<Rightarrow> bval option"

type_synonym M = "string \<Rightarrow> bval option"
type_synonym D = "(string \<times> bval) list"

record ClientOptions =
  uri :: string
  connectTimeout :: int
  timeout :: int

record IndexOptions =
  Unique :: "bool option"
  Sparse :: "bool option"

record IndexModel =
  Keys :: D
  Options :: IndexOptions

datatype ReturnDocument = Before | After

datatype event =
    EvConnect ClientOptions
  | EvPing conn
  | EvDisconnect conn
  | EvLogRelease int
  | EvLogError "64 word"
  | EvInsertOne conn string string M
  | EvFindOneAndUpdate conn string string M M ReturnDocument
  | EvCreateOne conn string string IndexModel

type_synonym store = "string \<times> string \<times> string \<Rightarrow> int option"

record world =
  mem :: memory
  next_addr :: addr
  trace :: "event list"
  counters :: store

record env =
  ping_err :: "error option"
  connect_out :: "error + conn"
  store_err :: "error option"

record ConnectionContext =
  clients :: ClientHeap
  clientOpts :: ClientOptions

definition emit :: "event \<Rightarrow> world \<Rightarrow> world" where
  "emit ev w = w\<lparr>trace := trace w @ [ev]\<rparr>"

text \<open>\<open>mongo.IsDuplicateKeyError(err)\<close>: false on \<open>nil\<close> and on every other error.\<close>

definition IsDuplicateKeyError :: "error option \<Rightarrow> bool" where
  "IsDuplicateKeyError err = (err = Some DuplicateKeyError)"

text \<open>
  Modelled from the spec: the backing store behind \<open>InsertOne\<close> (the driver and the server
  are not part of the sources). It holds one counter record per (namespace, collection,
  id) with an integer \<open>seq\<close>; inserting under an identity that already exists is a
  duplicate-key failure and changes nothing; a round trip that fails for another reason
  changes nothing either.
\<close>

definition store_InsertOne :: "error option \<Rightarrow> string \<times> string \<times> string \<Rightarrow> int \<Rightarrow> store \<Rightarrow> error option \<times> store" where
  "store_InsertOne fault k v st =
     (case fault of
        Some e \<Rightarrow> (Some e, st)
      | None \<Rightarrow> if st k \<noteq> None then (Some DuplicateKeyError, st) else (None, st(k \<mapsto> v)))"

text \<open>
  Modelled from the spec: the backing store behind \<open>FindOneAndUpdate\<close> with
  \<open>$inc\<close> on \<open>seq\<close> and \<open>ReturnDocument(After)\<close>, followed by \<open>Decode\<close>: the record's
  \<open>seq\<close> is incremented in one step and the value after the increment is decoded; with
  no matching record nothing is created and the error is \<open>ErrNoDocuments\<close>.
\<close>

definition store_FindOneAndUpdate :: "error option \<Rightarrow> string \<times> string \<times> string \<Rightarrow> int \<Rightarrow> store \<Rightarrow> (int option \<times> error option) \<times> store" where
  "store_FindOneAndUpdate fault k d st =
     (case fault of
        Some e \<Rightarrow> ((None, Some e), st)
      | None \<Rightarrow>
          (case st k of
             None \<Rightarrow> ((None, Some ErrNoDocuments), st)
           | Some v \<Rightarrow> ((Some (v + d), None), st(k \<mapsto> v + d))))"

section \<open>The pool\<close>

text \<open>
  The mutex is not modelled: every operation below is one critical section, run
  sequentially. A \<open>*ConnectionContext\<close> is passed and returned by value.
\<close>

function connect_loop :: "(nat \<Rightarrow> error + conn) \<Rightarrow> ClientOptions \<Rightarrow> int \<Rightarrow> int \<Rightarrow> ClientHeap \<Rightarrow> world \<Rightarrow> error option \<times> ClientHeap \<times> world" where
  "connect_loop outs opts i clientNum cs w =
     (if i < clientNum
      then
        (let w1 = emit (EvConnect opts) w in
         case outs (nat i) of
           Inl err \<Rightarrow> (Some err, cs, w1)
         | Inr newClient \<Rightarrow>
             let a = next_addr w1;
                 w2 = w1\<lparr>mem := (mem w1)(a := \<lparr>mongo_Client = newClient, ref = 0, index = i\<rparr>),
                         next_addr := a + 1\<rparr>
             in connect_loop outs opts (i + 1) clientNum (cs @ [a]) w2)
      else (None, cs, w))"
  by pat_completeness auto
termination
  by (relation "measure (\<lambda>(outs, opts, i, clientNum, cs, w). nat (clientNum - i))") auto

definition ConnectWithTimeout :: "string \<Rightarrow> int \<Rightarrow> int \<Rightarrow> int \<Rightarrow> (nat \<Rightarrow> error + conn) \<Rightarrow> world \<Rightarrow> (ConnectionContext option \<times> error option) outcome \<times> world" where
  "ConnectWithTimeout url clientNum0 connectTimeout0 timeout0 outs w0 =
     (let (clientNum, w) =
            (if clientNum0 \<le> 0 then (100, emit (EvLogRelease 100) w0) else (clientNum0, w0));
          opts = \<lparr>uri = url, connectTimeout = connectTimeout0, timeout = timeout0\<rparr>
      in
        case connect_loop outs opts 0 clientNum [] w of
          (Some err, cs, w1) \<Rightarrow> (Return (None, Some err), w1)
        | (None, cs, w1) \<Rightarrow>
            (case Init cs (mem w1) of
               (Panic, h, m) \<Rightarrow> (Panic, w1\<lparr>mem := m\<rparr>)
             | (Return _, h, m) \<Rightarrow>
                 (Return (Some \<lparr>clients = h, clientOpts = opts\<rparr>, None), w1\<lparr>mem := m\<rparr>)))"

text \<open>\<open>10*time.Second\<close> and \<open>5*time.Minute\<close>, in nanoseconds.\<close>

definition Connect :: "string \<Rightarrow> int \<Rightarrow> (nat \<Rightarrow> error + conn) \<Rightarrow> world \<Rightarrow> (ConnectionContext option \<times> error option) outcome \<times> world" where
  "Connect url clientNum outs w = ConnectWithTimeout url clientNum 10000000000 300000000000 outs w"

fun Close_loop :: "addr list \<Rightarrow> world \<Rightarrow> world" where
  "Close_loop [] w = w"
| "Close_loop (s # ss) w =
     (let w1 = emit (EvDisconnect (mongo_Client (mem w s))) w;
          w2 = (if ref (mem w1 s) \<noteq> 0 then emit (EvLogError (ref (mem w1 s))) w1 else w1)
      in Close_loop ss w2)"

definition Close :: "ConnectionContext \<Rightarrow> world \<Rightarrow> world" where
  "Close c w = Close_loop (clients c) w"

text \<open>
  \<open>Ref\<close>: \<open>c.clients[0]\<close> panics on an empty slice. The probe runs only under
  \<open>s.ref == 0\<close>; a failed reconnect returns before \<open>s.ref++\<close>.
\<close>

definition Ref :: "env \<Rightarrow> ConnectionContext \<Rightarrow> world \<Rightarrow> (addr option \<times> error option) outcome \<times> ConnectionContext \<times> world" where
  "Ref e c w =
     (case clients c of
        [] \<Rightarrow> (Panic, c, w)
      | s # _ \<Rightarrow>
          (let (failed, w') =
                 (if ref (mem w s) = 0
                  then
                    (let w1 = emit (EvPing (mongo_Client (mem w s))) w in
                     case ping_err e of
                       None \<Rightarrow> (None, w1)
                     | Some _ \<Rightarrow>
                         (let w2 = emit (EvDisconnect (mongo_Client (mem w1 s))) w1;
                              w3 = emit (EvConnect (clientOpts c)) w2
                          in case connect_out e of
                               Inl err \<Rightarrow> (Some err, w3)
                             | Inr newClient \<Rightarrow>
                                 (None, w3\<lparr>mem := (mem w3)(s := (mem w3 s)\<lparr>mongo_Client := newClient\<rparr>)\<rparr>)))
                  else (None, w))
           in case failed of
                Some err \<Rightarrow> (Return (None, Some err), c, w')
              | None \<Rightarrow>
                  (let m1 = (mem w')(s := (mem w' s)\<lparr>ref := ref (mem w' s) + 1\<rparr>) in
                   case Fix (clients c) m1 0 of
                     (Panic, h, m) \<Rightarrow> (Panic, c\<lparr>clients := h\<rparr>, w'\<lparr>mem := m\<rparr>)
                   | (Return _, h, m) \<Rightarrow>
                       (Return (Some s, None), c\<lparr>clients := h\<rparr>, w'\<lparr>mem := m\<rparr>))))"

text \<open>\<open>UnRef\<close>: \<open>nil\<close> is a no-op; otherwise \<open>s.ref--\<close> and \<open>heap.Fix\<close> at \<open>s.index\<close>.\<close>

definition UnRef :: "addr option \<Rightarrow> ConnectionContext \<Rightarrow> world \<Rightarrow> unit outcome \<times> ConnectionContext \<times> world" where
  "UnRef s c w =
     (case s of
        None \<Rightarrow> (Return (), c, w)
      | Some a \<Rightarrow>
          (let m1 = (mem w)(a := (mem w a)\<lparr>ref := ref (mem w a) - 1\<rparr>) in
           case Fix (clients c) m1 (index (m1 a)) of
             (r, h, m) \<Rightarrow> (r, c\<lparr>clients := h\<rparr>, w\<lparr>mem := m\<rparr>)))"

section \<open>Derived operations\<close>

text \<open>
  Each one borrows a client with \<open>Ref\<close>, makes one round trip through it, and the deferred
  \<open>UnRef\<close> runs when the function returns. A failed \<open>Ref\<close> returns its error before the
  \<open>defer\<close> is registered and before any request is made.
\<close>

definition EnsureCounter :: "env \<Rightarrow> string \<Rightarrow> string \<Rightarrow> string \<Rightarrow> ConnectionContext \<Rightarrow> world \<Rightarrow> error option outcome \<times> ConnectionContext \<times> world" where
  "EnsureCounter e db collection id' c w =
     (case Ref e c w of
        (Panic, c1, w1) \<Rightarrow> (Panic, c1, w1)
      | (Return (s, err), c1, w1) \<Rightarrow>
          (case err of
             Some x \<Rightarrow> (Return (Some x), c1, w1)
           | None \<Rightarrow>
               (case s of
                  None \<Rightarrow> (Panic, c1, w1)
                | Some a \<Rightarrow>
                    (let doc = [''_id'' \<mapsto> BString id', ''seq'' \<mapsto> BInt 0];
                         w2 = emit (EvInsertOne (mongo_Client (mem w1 a)) db collection doc) w1;
                         (err2, st) = store_InsertOne (store_err e) (db, collection, id') 0 (counters w2);
                         w3 = w2\<lparr>counters := st\<rparr>;
                         result = (if IsDuplicateKeyError err2 then None else err2)
                     in case UnRef (Some a) c1 w3 of
                          (Panic, c4, w4) \<Rightarrow> (Panic, c4, w4)
                        | (Return _, c4, w4) \<Rightarrow> (Return result, c4, w4)))))"

text \<open>\<open>res.Seq\<close> starts at 0 and is overwritten only when a document is decoded.\<close>

definition NextSeq :: "env \<Rightarrow> string \<Rightarrow> string \<Rightarrow> string \<Rightarrow> ConnectionContext \<Rightarrow> world \<Rightarrow> (int \<times> error option) outcome \<times> ConnectionContext \<times> world" where
  "NextSeq e db collection id' c w =
     (case Ref e c w of
        (Panic, c1, w1) \<Rightarrow> (Panic, c1, w1)
      | (Return (s, err), c1, w1) \<Rightarrow>
          (case err of
             Some x \<Rightarrow> (Return (0, Some x), c1, w1)
           | None \<Rightarrow>
               (case s of
                  None \<Rightarrow> (Panic, c1, w1)
                | Some a \<Rightarrow>
                    (let filter = [''_id'' \<mapsto> BString id'];
                         update = [''$inc'' \<mapsto> BDoc [''seq'' \<mapsto> BInt 1]];
                         w2 = emit (EvFindOneAndUpdate (mongo_Client (mem w1 a)) db collection filter update After) w1;
                         ((decoded, err2), st) = store_FindOneAndUpdate (store_err e) (db, collection, id') 1 (counters w2);
                         w3 = w2\<lparr>counters := st\<rparr>;
                         res_Seq = (case decoded of None \<Rightarrow> 0 | Some v \<Rightarrow> v)
                     in case UnRef (Some a) c1 w3 of
                          (Panic, c4, w4) \<Rightarrow> (Panic, c4, w4)
                        | (Return _, c4, w4) \<Rightarrow> (Return (res_Seq, err2), c4, w4)))))"

text \<open>
  \<open>keysDoc := make(bson.D, len(key))\<close> followed by \<open>keysDoc[i] = bson.E{Key: k, Value: 1}\<close>
  for every \<open>i, k\<close> of \<open>key\<close>; the positions written are those of \<open>key\<close>, so inside
  \<open>keysDoc\<close>.
\<close>

fun keys_loop :: "nat \<Rightarrow> string list \<Rightarrow> D \<Rightarrow> D" where
  "keys_loop i [] keysDoc = keysDoc"
| "keys_loop i (k # ks) keysDoc = keys_loop (i + 1) ks (keysDoc[i := (k, BInt 1)])"

definition ensureIndex :: "env \<Rightarrow> string \<Rightarrow> string \<Rightarrow> string list \<Rightarrow> bool \<Rightarrow> ConnectionContext \<Rightarrow> world \<Rightarrow> error option outcome \<times> ConnectionContext \<times> world" where
  "ensureIndex e db collection key unique c w =
     (case Ref e c w of
        (Panic, c1, w1) \<Rightarrow> (Panic, c1, w1)
      | (Return (s, err), c1, w1) \<Rightarrow>
          (case err of
             Some x \<Rightarrow> (Return (Some x), c1, w1)
           | None \<Rightarrow>
               (case s of
                  None \<Rightarrow> (Panic, c1, w1)
                | Some a \<Rightarrow>
                    (let keysDoc = keys_loop 0 key (replicate (length key) ([], BNull));
                         indexModel = \<lparr>Keys = keysDoc,
                                       Options = \<lparr>Unique = Some unique, Sparse = Some True\<rparr>\<rparr>;
                         w2 = emit (EvCreateOne (mongo_Client (mem w1 a)) db collection indexModel) w1;
                         err2 = store_err e
                     in case UnRef (Some a) c1 w2 of
                          (Panic, c3, w3) \<Rightarrow> (Panic, c3, w3)
                        | (Return _, c3, w3) \<Rightarrow> (Return err2, c3, w3)))))"

definition EnsureIndex :: "env \<Rightarrow> string \<Rightarrow> string \<Rightarrow> string list \<Rightarrow> ConnectionContext \<Rightarrow> world \<Rightarrow> error option outcome \<times> ConnectionContext \<times> world" where
  "EnsureIndex e db collection key c w = ensureIndex e db collection key False c w"

definition EnsureUniqueIndex :: "env \<Rightarrow> string \<Rightarrow> string \<Rightarrow> string list \<Rightarrow> ConnectionContext \<Rightarrow> world \<Rightarrow> error option outcome \<times> ConnectionContext \<times> world" where
  "EnsureUniqueIndex e db collection key c w = ensureIndex e db collection key True c w"

section \<open>Sequences of calls on one pool\<close>

datatype call = CallRef env | CallUnRef "addr option"

fun run :: "call list \<Rightarrow> ConnectionContext \<Rightarrow> world \<Rightarrow> ConnectionContext \<times> world" where
  "run [] c w = (c, w)"
| "run (CallRef e # cs) c w = (case Ref e c w of (_, c', w') \<Rightarrow> run cs c' w')"
| "run (CallUnRef s # cs) c w = (case UnRef s c w of (_, c', w') \<Rightarrow> run cs c' w')"

text \<open>The use count at slot \<open>i\<close> of the heap, read as Go reads it.\<close>

definition useCount :: "ConnectionContext \<Rightarrow> world \<Rightarrow> nat \<Rightarrow> int" where
  "useCount c w i = sint (ref (mem w (clients c ! i)))"

text \<open>
  The ledger of a call sequence: \<open>credit\<close> books an acquire when \<open>Ref\<close> returns a client,
  \<open>debit\<close> books the release of a non-nil client, and \<open>outstanding\<close> is the ledger after
  the calls, per client address. A sequence is \<open>matched\<close> when every \<open>UnRef\<close> of a non-nil
  client finds an acquire of that client still outstanding.
\<close>

definition credit :: "(addr option \<times> error option) outcome \<Rightarrow> (addr \<Rightarrow> nat) \<Rightarrow> (addr \<Rightarrow> nat)" where
  "credit r out = (case r of Return (Some a, _) \<Rightarrow> out(a := out a + 1) | _ \<Rightarrow> out)"

definition debit :: "addr option \<Rightarrow> (addr \<Rightarrow> nat) \<Rightarrow> (addr \<Rightarrow> nat)" where
  "debit s out = (case s of Some a \<Rightarrow> out(a := out a - 1) | None \<Rightarrow> out)"

fun outstanding :: "(addr \<Rightarrow> nat) \<Rightarrow> call list \<Rightarrow> ConnectionContext \<Rightarrow> world \<Rightarrow> (addr \<Rightarrow> nat)" where
  "outstanding out [] c w = out"
| "outstanding out (CallRef e # cs) c w =
     (case Ref e c w of (r, c', w') \<Rightarrow> outstanding (credit r out) cs c' w')"
| "outstanding out (CallUnRef s # cs) c w =
     (case UnRef s c w of (_, c', w') \<Rightarrow> outstanding (debit s out) cs c' w')"

fun matched :: "(addr \<Rightarrow> nat) \<Rightarrow> call list \<Rightarrow> ConnectionContext \<Rightarrow> world \<Rightarrow> bool" where
  "matched out [] c w = True"
| "matched out (CallRef e # cs) c w =
     (case Ref e c w of (r, c', w') \<Rightarrow> matched (credit r out) cs c' w')"
| "matched out (CallUnRef s # cs) c w =
     ((case s of Some a \<Rightarrow> 0 < out a | None \<Rightarrow> True) \<and>
      (case UnRef s c w of (_, c', w') \<Rightarrow> matched (debit s out) cs c' w'))"

text \<open>Nothing borrowed yet.\<close>

definition no_borrows :: "addr \<Rightarrow> nat" where
  "no_borrows a = 0"

section \<open>Properties of the heap\<close>

text \<open>
  The binary heap is laid out in the slice: the parent of slot \<open>k > 0\<close> is slot
  \<open>(k - 1) div 2\<close>. \<open>keys\<close> lists the use counts in slot order, \<open>heap_ok\<close> says that no
  slot holds a smaller count than its parent, and \<open>index_ok\<close> that every client in the
  slice records its own slot in its \<open>index\<close> field.
\<close>

definition parent :: "nat \<Rightarrow> nat" where
  "parent k = (k - 1) div 2"

definition keys :: "ClientHeap \<Rightarrow> memory \<Rightarrow> int list" where
  "keys h m = map (\<lambda>a. sint (ref (m a))) h"

definition heap_ok :: "int list \<Rightarrow> bool" where
  "heap_ok ks = list_all (\<lambda>k. ks ! parent k \<le> ks ! k) [1..<length ks]"

definition index_ok :: "ClientHeap \<Rightarrow> memory \<Rightarrow> bool" where
  "index_ok h m = list_all (\<lambda>i. index (m (h ! i)) = int i) [0..<length h]"

definition pool_inv :: "ConnectionContext \<Rightarrow> world \<Rightarrow> bool" where
  "pool_inv c w = (index_ok (clients c) (mem w) \<and> heap_ok (keys (clients c) (mem w)))"

text \<open>
  The heap order with one slot \<open>i\<close> left out: every parent-child pair that does not
  involve \<open>i\<close> is in order, and the parent of \<open>i\<close> is not above the children of \<open>i\<close>.
  This is what holds after the count at slot \<open>i\<close> alone has changed, and what \<open>down\<close> and
  \<open>up\<close> maintain while they move that element.
\<close>

definition above_children :: "int list \<Rightarrow> nat \<Rightarrow> bool" where
  "above_children ks i = (0 < i \<longrightarrow> (\<forall>k. 0 < k \<and> k < length ks \<and> parent k = i \<longrightarrow> ks ! parent i \<le> ks ! k))"

definition heap_except :: "int list \<Rightarrow> nat \<Rightarrow> bool" where
  "heap_except ks i = ((\<forall>k. 0 < k \<and> k < length ks \<and> k \<noteq> i \<and> parent k \<noteq> i \<longrightarrow> ks ! parent k \<le> ks ! k) \<and> above_children ks i)"

definition children_ok :: "int list \<Rightarrow> nat \<Rightarrow> bool" where
  "children_ok ks i = (\<forall>k. 0 < k \<and> k < length ks \<and> parent k = i \<longrightarrow> ks ! i \<le> ks ! k)"

definition parent_ok :: "int list \<Rightarrow> nat \<Rightarrow> bool" where
  "parent_ok ks i = (0 < i \<longrightarrow> ks ! parent i \<le> ks ! i)"

definition swap :: "int list \<Rightarrow> nat \<Rightarrow> nat \<Rightarrow> int list" where
  "swap ks i j = ks[i := ks ! j, j := ks ! i]"

text \<open>
  What the heap algorithms may change: the order of the slice and the \<open>index\<close> fields of
  its clients, nothing else.
\<close>

definition same_pool :: "ClientHeap \<Rightarrow> memory \<Rightarrow> ClientHeap \<Rightarrow> memory \<Rightarrow> bool" where
  "same_pool h m h' m' =
     (length h' = length h \<and> set h' = set h \<and>
      (\<forall>a. ref (m' a) = ref (m a) \<and> mongo_Client (m' a) = mongo_Client (m a)) \<and>
      (\<forall>a. a \<notin> set h \<longrightarrow> m' a = m a))"

text \<open>The state of the construction loop: clients allocated so far, all idle.\<close>

definition fresh_inv :: "ClientHeap \<Rightarrow> world \<Rightarrow> bool" where
  "fresh_inv cs w = (index_ok cs (mem w) \<and> (\<forall>a \<in> set cs. a < next_addr w \<and> ref (mem w a) = 0))"

text \<open>The number of clients \<open>ConnectWithTimeout\<close> sets out to create.\<close>

definition poolSize :: "int \<Rightarrow> int" where
  "poolSize clientNum = (if clientNum \<le> 0 then 100 else clientNum)"

text \<open>The driver calls \<open>Ref\<close> makes for the client \<open>s\<close> at the root.\<close>

definition Ref_events :: "env \<Rightarrow> ConnectionContext \<Rightarrow> world \<Rightarrow> addr \<Rightarrow> event list" where
  "Ref_events e c w s =
     (if ref (mem w s) = 0
      then EvPing (mongo_Client (mem w s)) #
           (if ping_err e = None then []
            else [EvDisconnect (mongo_Client (mem w s)), EvConnect (clientOpts c)])
      else [])"

text \<open>The \<open>Disconnect\<close> calls among the driver calls of a trace.\<close>

fun is_Disconnect :: "event \<Rightarrow> bool" where
  "is_Disconnect (EvDisconnect _) = True"
| "is_Disconnect _ = False"

text \<open>The requests to the backing store among the driver calls of a trace.\<close>

fun is_request :: "event \<Rightarrow> bool" where
  "is_request (EvInsertOne _ _ _ _) = True"
| "is_request (EvFindOneAndUpdate _ _ _ _ _ _) = True"
| "is_request (EvCreateOne _ _ _ _) = True"
| "is_request _ = False"

definition requests :: "event list \<Rightarrow> event list" where
  "requests evs = filter is_request evs"

text \<open>
  The connection a successful \<open>Ref\<close> hands out with the root client \<open>s\<close>: the replacement
  when the client was idle and its probe failed, the client's own connection otherwise.
\<close>

definition borrowed_conn :: "env \<Rightarrow> world \<Rightarrow> addr \<Rightarrow> conn" where
  "borrowed_conn e w s =
     (if ref (mem w s) = 0 \<and> ping_err e \<noteq> None then projr (connect_out e)
      else mongo_Client (mem w s))"

section \<open>Example inputs\<close>

text \<open>
  A world with no pool yet, a driver whose every connection attempt succeeds, a call
  environment in which the probe succeeds, and the pool of three clients built from them.
\<close>

definition empty_world :: world where
  "empty_world = \<lparr>mem = (\<lambda>_. \<lparr>mongo_Client = 0, ref = 0, index = 0\<rparr>), next_addr = 0, trace = [], counters = Map.empty\<rparr>"

definition all_up :: "nat \<Rightarrow> error + conn" where
  "all_up i = Inr (100 + i)"

definition healthy :: env where
  "healthy = \<lparr>ping_err = None, connect_out = Inl (DriverError 0), store_err = None\<rparr>"

definition opts3 :: ClientOptions where
  "opts3 = \<lparr>uri = ''mongodb://localhost:27017'', connectTimeout = 10, timeout = 10\<rparr>"

definition fresh3 :: "(ConnectionContext option \<times> error option) outcome \<times> world" where
  "fresh3 = ConnectWithTimeout ''mongodb://localhost:27017'' 3 10 10 all_up empty_world"

definition pool3 :: ConnectionContext where
  "pool3 = \<lparr>clients = [0, 1, 2], clientOpts = opts3\<rparr>"

definition calls3 :: "call list" where
  "calls3 = [CallRef healthy, CallRef healthy, CallUnRef (Some 0), CallRef healthy]"

text \<open>
  The same pool after some calls, the pool with every client borrowed once, and a driver
  whose second connection attempt fails.
\<close>

definition busy3 :: "ConnectionContext \<times> world" where
  "busy3 = run calls3 pool3 (snd fresh3)"

definition flaky :: "nat \<Rightarrow> error + conn" where
  "flaky i = (if i = 1 then Inl (DriverError 7) else Inr (100 + i))"

definition all_busy3 :: "ConnectionContext \<times> world" where
  "all_busy3 = run [CallRef healthy, CallRef healthy, CallRef healthy] pool3 (snd fresh3)"

text \<open>The world of the fresh pool with one counter record seeded at 0.\<close>

definition seeded3 :: world where
  "seeded3 = (snd fresh3)\<lparr>counters := [(''test'', ''counters'', ''test'') \<mapsto> 0]\<rparr>"

text \<open>One borrow of the root client followed by two releases of it.\<close>

definition double_release3 :: "ConnectionContext \<times> world" where
  "double_release3 = run [CallRef healthy, CallUnRef (Some 0), CallUnRef (Some 0)] pool3 (snd fresh3)"

text \<open>Two borrows, then the release of the first borrowed client.\<close>

definition prefix3 :: "call list" where
  "prefix3 = [CallRef healthy, CallRef healthy, CallUnRef (Some 0)]"

section \<open>Lemmas\<close>

lemma heap_ok_iff: "heap_ok ks \<longleftrightarrow> (\<forall>k. 0 < k \<and> k < length ks \<longrightarrow> ks ! parent k \<le> ks ! k)"
  by (auto simp: heap_ok_def list_all_iff)

lemma parent_less: "0 < k \<Longrightarrow> parent k < k"
  unfolding parent_def by arith

lemma parent_cases: "0 < k \<Longrightarrow> parent k = i \<longleftrightarrow> (k = 2 * i + 1 \<or> k = 2 * i + 2)"
  unfolding parent_def by arith

lemma heap_ok_except: "heap_ok ks \<Longrightarrow> heap_except ks i"
  unfolding heap_ok_iff heap_except_def above_children_def
  by (metis order_trans parent_less less_trans)

lemma heap_okI:
  assumes "heap_except ks i" "children_ok ks i" "parent_ok ks i"
  shows "heap_ok ks"
  unfolding heap_ok_iff
proof (intro allI impI)
  fix k assume k: "0 < k \<and> k < length ks"
  show "ks ! parent k \<le> ks ! k"
  proof (cases "k = i")
    case True then show ?thesis using assms(3) k unfolding parent_ok_def by simp
  next
    case False
    show ?thesis
    proof (cases "parent k = i")
      case True then show ?thesis using assms(2) k unfolding children_ok_def by blast
    next
      case F: False
      then show ?thesis using assms(1) k False unfolding heap_except_def by blast
    qed
  qed
qed

lemma heap_ok_children: "heap_ok ks \<Longrightarrow> children_ok ks i"
  unfolding heap_ok_iff children_ok_def by blast

lemma heap_ok_parent: "heap_ok ks \<Longrightarrow> i < length ks \<Longrightarrow> parent_ok ks i"
  unfolding heap_ok_iff parent_ok_def by blast

lemma heap_except_update:
  assumes "heap_ok ks" 
  shows "heap_except (ks[i := v]) i"
proof -
  have E: "heap_except ks i" using assms by (rule heap_ok_except)
  show ?thesis
    unfolding heap_except_def above_children_def
  proof (intro conjI allI impI)
    fix k assume "0 < k \<and> k < length (ks[i := v]) \<and> k \<noteq> i \<and> parent k \<noteq> i"
    then show "ks[i := v] ! parent k \<le> ks[i := v] ! k"
      using assms unfolding heap_ok_iff by simp
  next
    fix k assume i: "0 < i" and k: "0 < k \<and> k < length (ks[i := v]) \<and> parent k = i"
    have "parent i \<noteq> i" using parent_less[OF i] by simp
    moreover have "k \<noteq> i" using k parent_less[of k] by auto
    ultimately show "ks[i := v] ! parent i \<le> ks[i := v] ! k"
      using E k i unfolding heap_except_def above_children_def by simp
  qed
qed

lemma swap_nth: "i < length ks \<Longrightarrow> j < length ks \<Longrightarrow> k < length ks \<Longrightarrow>
  swap ks i j ! k = (if k = j then ks ! i else if k = i then ks ! j else ks ! k)"
  by (simp add: swap_def nth_list_update)

lemma length_swap[simp]: "length (swap ks i j) = length ks"
  by (simp add: swap_def)

lemma down_step:
  assumes E: "heap_except ks i" and j: "0 < j" "j < length ks" "parent j = i"
    and lt: "ks ! j < ks ! i"
    and mn: "\<forall>k. 0 < k \<and> k < length ks \<and> parent k = i \<longrightarrow> ks ! j \<le> ks ! k"
  shows "heap_except (swap ks i j) j \<and> parent_ok (swap ks i j) j"
proof -
  have ij: "i < j" using parent_less[OF j(1)] j(3) by simp
  then have il: "i < length ks" using j(2) by simp
  have pi: "0 < i \<Longrightarrow> parent i < i" by (rule parent_less)
  show ?thesis
    unfolding heap_except_def above_children_def parent_ok_def
  proof (intro conjI allI impI)
    fix k assume k: "0 < k \<and> k < length (swap ks i j) \<and> k \<noteq> j \<and> parent k \<noteq> j"
    then have kl: "k < length ks" and pl: "parent k < length ks" using parent_less[of k] by auto
    show "swap ks i j ! parent k \<le> swap ks i j ! k"
    proof (cases "k = i")
      case True
      then have "0 < i" using k by simp
      then have "ks ! parent i \<le> ks ! j" using E j unfolding heap_except_def above_children_def by blast
      moreover have "parent i \<noteq> i" "parent i \<noteq> j" using pi[OF \<open>0 < i\<close>] ij by auto
      ultimately show ?thesis using True il j pl by (simp add: swap_nth)
    next
      case False
      show ?thesis
      proof (cases "parent k = i")
        case True
        then have "ks ! j \<le> ks ! k" using mn k kl by blast
        then show ?thesis using True False k kl il j by (simp add: swap_nth)
      next
        case F2: False
        then have "ks ! parent k \<le> ks ! k" using E k kl False unfolding heap_except_def by blast
        then show ?thesis using F2 False k kl pl il j by (simp add: swap_nth)
      qed
    qed
  next
    fix k assume "0 < j" and k: "0 < k \<and> k < length (swap ks i j) \<and> parent k = j"
    then have kl: "k < length ks" and kj: "j < k" using parent_less[of k] by auto
    have "k \<noteq> i" "parent k \<noteq> i" using kj ij k by auto
    then have "ks ! j \<le> ks ! k" using E k kl unfolding heap_except_def by auto
    then show "swap ks i j ! parent j \<le> swap ks i j ! k"
      using j il kl kj ij by (simp add: swap_nth)
  next
    assume "0 < j"
    show "swap ks i j ! parent j \<le> swap ks i j ! j"
      using j il ij lt by (simp add: swap_nth)
  qed
qed

lemma up_step:
  assumes E: "heap_except ks j" and C: "children_ok ks j" and j: "0 < j" "j < length ks"
    and lt: "ks ! j < ks ! parent j"
  shows "heap_except (swap ks (parent j) j) (parent j) \<and> children_ok (swap ks (parent j) j) (parent j)"
proof -
  define i where "i = parent j"
  have ij: "i < j" using parent_less[OF j(1)] i_def by simp
  then have il: "i < length ks" using j(2) by simp
  have pi: "0 < i \<Longrightarrow> parent i < i" by (rule parent_less)
  show ?thesis
    unfolding heap_except_def above_children_def children_ok_def i_def[symmetric]
  proof (intro conjI allI impI)
    fix k assume k: "0 < k \<and> k < length (swap ks i j) \<and> k \<noteq> i \<and> parent k \<noteq> i"
    then have kl: "k < length ks" and pl: "parent k < length ks" and pk: "parent k < k" using parent_less[of k] by auto
    show "swap ks i j ! parent k \<le> swap ks i j ! k"
    proof (cases "parent k = j")
      case True
      then have "ks ! j \<le> ks ! k" using C k kl unfolding children_ok_def by blast
      moreover have "ks ! i \<le> ks ! k" 
        using E True k kl j i_def unfolding heap_except_def above_children_def by blast
      ultimately show ?thesis using True k kl il j ij pk by (simp add: swap_nth)
    next
      case False
      have "k \<noteq> j" using k i_def by auto
      then have "ks ! parent k \<le> ks ! k" using E k kl False unfolding heap_except_def by blast
      then show ?thesis using False \<open>k \<noteq> j\<close> k kl pl il j by (simp add: swap_nth)
    qed
  next
    fix k assume i0: "0 < i" and k: "0 < k \<and> k < length (swap ks i j) \<and> parent k = i"
    then have kl: "k < length ks" and ik: "i < k" using parent_less[of k] by auto
    have pil: "parent i < length ks" "parent i \<noteq> i" "parent i \<noteq> j" using pi[OF i0] il ij by auto
    have "i \<noteq> j" "parent i \<noteq> j" using ij pi[OF i0] by auto
    then have pii: "ks ! parent i \<le> ks ! i"
      using E i0 il unfolding heap_except_def by blast
    show "swap ks i j ! parent i \<le> swap ks i j ! k"
    proof (cases "k = j")
      case True
      then show ?thesis using pii pil il j by (simp add: swap_nth)
    next
      case False
      moreover have "parent k \<noteq> j" using k ij by auto
      ultimately have "ks ! parent k \<le> ks ! k" using E k kl unfolding heap_except_def by blast
      then have "ks ! i \<le> ks ! k" using k by simp
      then show ?thesis using False pii pil il j kl ik by (simp add: swap_nth)
    qed
  next
    fix k assume k: "0 < k \<and> k < length (swap ks i j) \<and> parent k = i"
    then have kl: "k < length ks" and ik: "i < k" using parent_less[of k] by auto
    show "swap ks i j ! i \<le> swap ks i j ! k"
    proof (cases "k = j")
      case True
      then show ?thesis using lt il j ij i_def by (simp add: swap_nth)
    next
      case False
      moreover have "parent k \<noteq> j" using k ij by auto
      ultimately have "ks ! parent k \<le> ks ! k" using E k kl unfolding heap_except_def by blast
      then have "ks ! i \<le> ks ! k" using k by simp
      then show ?thesis using False lt il j kl ik i_def by (simp add: swap_nth)
    qed
  qed
qed

lemma heap_root_min:
  assumes "heap_ok ks" "i < length ks"
  shows "ks ! 0 \<le> ks ! i"
  using assms(2)
proof (induction i rule: less_induct)
  case (less i)
  show ?case
  proof (cases "i = 0")
    case True then show ?thesis by simp
  next
    case False
    then have p: "parent i < i" using parent_less by simp
    have "ks ! parent i \<le> ks ! i" using assms(1) False less.prems unfolding heap_ok_iff by simp
    moreover have "ks ! 0 \<le> ks ! parent i" using less.IH[OF p] p less.prems by simp
    ultimately show ?thesis by simp
  qed
qed

declare up.simps [simp del] down_loop.simps [simp del] Init_loop.simps [simp del]
  connect_loop.simps [simp del]

lemma index_ok_iff: "index_ok h m \<longleftrightarrow> (\<forall>i < length h. index (m (h ! i)) = int i)"
  by (auto simp: index_ok_def list_all_iff)

lemma index_ok_distinct: "index_ok h m \<Longrightarrow> distinct h"
  unfolding index_ok_iff distinct_conv_nth by (metis of_nat_eq_iff)

lemma same_pool_refl: "same_pool h m h m"
  by (simp add: same_pool_def)

lemma same_pool_trans: "same_pool h m h1 m1 \<Longrightarrow> same_pool h1 m1 h2 m2 \<Longrightarrow> same_pool h m h2 m2"
  by (simp add: same_pool_def)

lemma same_pool_keys_length: "same_pool h m h' m' \<Longrightarrow> length (keys h' m') = length (keys h m)"
  by (simp add: same_pool_def keys_def)

lemma length_keys [simp]: "length (keys h m) = length h"
  by (simp add: keys_def)

lemma Swap_props:
  assumes ok: "index_ok h m" and i: "i < length h" and j: "j < length h"
  shows "\<exists>h' m'. Swap h m (int i) (int j) = Some (h', m') \<and> index_ok h' m' \<and>
           same_pool h m h' m' \<and> keys h' m' = swap (keys h m) i j"
proof -
  define h' where "h' = h[i := h ! j, j := h ! i]"
  define m1 where "m1 = m(h' ! i := (m (h' ! i))\<lparr>index := int i\<rparr>)"
  define m' where "m' = m1(h' ! j := (m1 (h' ! j))\<lparr>index := int j\<rparr>)"
  have d: "distinct h" using ok by (rule index_ok_distinct)
  have S: "Swap h m (int i) (int j) = Some (h', m')"
    using i j by (simp add: Swap_def in_range_def Let_def h'_def m1_def m'_def)
  have len: "length h' = length h" by (simp add: h'_def)
  have seth: "set h' = set h"
    using i j unfolding h'_def by (rule set_swap)
  have refs: "ref (m' a) = ref (m a) \<and> mongo_Client (m' a) = mongo_Client (m a)" for a
    by (simp add: m'_def m1_def)
  have hi: "h' ! i = (if i = j then h ! i else h ! j)" and hj: "h' ! j = h ! i"
    using i j by (auto simp: h'_def nth_list_update)
  have hk: "k \<noteq> i \<Longrightarrow> k \<noteq> j \<Longrightarrow> h' ! k = h ! k" for k
    by (simp add: h'_def)
  have inset: "h ! i \<in> set h" "h ! j \<in> set h" using i j by auto
  have other: "a \<notin> set h \<Longrightarrow> m' a = m a" for a
    using inset hi hj by (auto simp: m'_def m1_def)
  have iok: "index_ok h' m'"
    unfolding index_ok_iff
  proof (intro allI impI)
    fix k assume k: "k < length h'"
    then have kl: "k < length h" using len by simp
    show "index (m' (h' ! k)) = int k"
    proof (cases "k = j")
      case True
      then show ?thesis by (simp add: m'_def)
    next
      case kj: False
      show ?thesis
      proof (cases "k = i")
        case True
        then have "i \<noteq> j" using kj by simp
        then have "h ! i \<noteq> h ! j" using d i j by (simp add: nth_eq_iff_index_eq)
        then show ?thesis using True \<open>i \<noteq> j\<close> hi hj by (simp add: m'_def m1_def)
      next
        case ki: False
        have "h ! k \<noteq> h ! i" "h ! k \<noteq> h ! j"
          using d i j kl ki kj by (simp_all add: nth_eq_iff_index_eq)
        then have "m' (h' ! k) = m (h ! k)"
          using hk[OF ki kj] hi hj by (auto simp: m'_def m1_def)
        then show ?thesis using ok kl by (simp add: index_ok_iff)
      qed
    qed
  qed
  have "keys h' m' = map (\<lambda>a. sint (ref (m a))) h'"
    by (simp add: keys_def refs)
  also have "\<dots> = swap (keys h m) i j"
    using i j by (simp add: h'_def swap_def keys_def map_update)
  finally have K: "keys h' m' = swap (keys h m) i j" .
  show ?thesis
    using S iok K len seth refs other by (auto simp: same_pool_def)
qed

lemma Less_keys:
  assumes "i < length h" "j < length h"
  shows "Less h m (int i) (int j) = Some (keys h m ! i < keys h m ! j)"
  using assms by (simp add: Less_def in_range_def keys_def)

lemma down_loop_props:
  assumes "index_ok h m" "n = int (length h)"
  shows "\<exists>i' h' m'. down_loop h m i n = (Return i', h', m') \<and> i \<le> i' \<and> index_ok h' m' \<and>
           same_pool h m h' m' \<and> (i' = i \<longrightarrow> h' = h \<and> m' = m) \<and>
           (0 \<le> i \<and> i < n \<and> heap_except (keys h m) (nat i) \<longrightarrow>
              (if i' = i then children_ok (keys h m) (nat i) else heap_ok (keys h' m')))"
  using assms
proof (induction h m i n rule: down_loop.induct)
  case (1 h m i n)
  define j1 where "j1 = 2 * i + 1"
  define ks where "ks = keys h m"
  have lks: "length ks = length h" by (simp add: ks_def)
  show ?case
  proof (cases "n \<le> j1 \<or> j1 < 0")
    case True
    have D: "down_loop h m i n = (Return i, h, m)"
      by (subst down_loop.simps) (use True in \<open>simp add: j1_def Let_def\<close>)
    have "children_ok ks (nat i)" if "0 \<le> i"
      unfolding children_ok_def
    proof (intro allI impI)
      fix k assume k: "0 < k \<and> k < length ks \<and> parent k = nat i"
      then have "k = 2 * nat i + 1 \<or> k = 2 * nat i + 2" using parent_cases[of k "nat i"] by simp
      then have "int k \<ge> j1" using that by (auto simp: j1_def)
      then have False using True k that "1.prems"(2) lks by (auto simp: j1_def)
      then show "ks ! nat i \<le> ks ! k" ..
    qed
    then show ?thesis
      using D "1.prems"(1) by (simp add: same_pool_refl ks_def)
  next
    case False
    then have i0: "0 \<le> i" and j1n: "j1 < n" by (auto simp: j1_def)
    define a where "a = nat i"
    define b1 where "b1 = 2 * a + 1"
    have ia: "i = int a" using i0 by (simp add: a_def)
    have j1b: "j1 = int b1" by (simp add: j1_def b1_def ia)
    have b1l: "b1 < length h" using j1n "1.prems"(2) j1b by simp
    have al: "a < length h" using b1l by (simp add: b1_def)
    define right where "right = (b1 + 1 < length h \<and> ks ! (b1 + 1) < ks ! b1)"
    have R: "(if j1 + 1 < n then Less h m (j1 + 1) j1 else Some False) = Some right"
    proof (cases "j1 + 1 < n")
      case True
      then have l: "b1 + 1 < length h" using "1.prems"(2) j1b by simp
      have "j1 + 1 = int (b1 + 1)" using j1b by simp
      then have "Less h m (j1 + 1) j1 = Some (ks ! (b1 + 1) < ks ! b1)"
        using Less_keys[OF l b1l, of m] j1b by (simp add: ks_def add.commute)
      then show ?thesis using True l by (simp add: right_def)
    next
      case F: False
      then have "\<not> b1 + 1 < length h" using "1.prems"(2) j1b by simp
      then show ?thesis using F by (simp add: right_def)
    qed
    define j where "j = (if right then j1 + 1 else j1)"
    define b where "b = (if right then b1 + 1 else b1)"
    have jb: "j = int b" by (simp add: j_def b_def j1b)
    have bl: "b < length h" using b1l by (auto simp: b_def right_def)
    have pb: "parent b = a" "0 < b" by (auto simp: b_def b1_def parent_def)
    have bmin: "\<forall>k. 0 < k \<and> k < length ks \<and> parent k = a \<longrightarrow> ks ! b \<le> ks ! k"
    proof (intro allI impI)
      fix k assume k: "0 < k \<and> k < length ks \<and> parent k = a"
      then have "k = b1 \<or> k = b1 + 1" using parent_cases[of k a] by (auto simp: b1_def)
      then show "ks ! b \<le> ks ! k" using k lks by (auto simp: b_def right_def)
    qed
    have L: "Less h m j i = Some (ks ! b < ks ! a)"
      using Less_keys[OF bl al, of m] by (simp add: jb ia ks_def)
    show ?thesis
    proof (cases "ks ! b < ks ! a")
      case F: False
      have D: "down_loop h m i n = (Return i, h, m)"
        by (subst down_loop.simps)
          (use False R L F in \<open>simp add: j1_def[symmetric] Let_def j_def[symmetric]\<close>)
      have "children_ok ks a"
        unfolding children_ok_def
      proof (intro allI impI)
        fix k assume k: "0 < k \<and> k < length ks \<and> parent k = a"
        then have "ks ! b \<le> ks ! k" using bmin by blast
        then show "ks ! a \<le> ks ! k" using F by simp
      qed
      then show ?thesis
        using D "1.prems"(1) by (simp add: same_pool_refl ks_def a_def)
    next
      case T: True
      obtain h1 m1 where S: "Swap h m (int a) (int b) = Some (h1, m1)" and ok1: "index_ok h1 m1"
        and sp1: "same_pool h m h1 m1" and k1: "keys h1 m1 = swap ks a b"
        using Swap_props[OF "1.prems"(1) al bl] unfolding ks_def by blast
      have n1: "n = int (length h1)" using sp1 "1.prems"(2) by (simp add: same_pool_def)
      have D: "down_loop h m i n = down_loop h1 m1 j n"
        by (subst down_loop.simps)
          (use False R L T S in \<open>simp add: j1_def[symmetric] Let_def j_def[symmetric] ia[symmetric] jb[symmetric]\<close>)
      have IH: "\<exists>i' h' m'. down_loop h1 m1 j n = (Return i', h', m') \<and> j \<le> i' \<and> index_ok h' m' \<and>
           same_pool h1 m1 h' m' \<and> (i' = j \<longrightarrow> h' = h1 \<and> m' = m1) \<and>
           (0 \<le> j \<and> j < n \<and> heap_except (keys h1 m1) (nat j) \<longrightarrow>
              (if i' = j then children_ok (keys h1 m1) (nat j) else heap_ok (keys h' m')))"
      proof (rule "1.IH"[OF _ _ _ _ _ _ _ _ ok1 n1])
        show "j1 = 2 * i + 1" by (simp add: j1_def)
        show "\<not> (n \<le> j1 \<or> j1 < 0)" by (rule False)
        show "(if j1 + 1 < n then Less h m (j1 + 1) j1 else Some False) = Some right" by (rule R)
        show "j = (if right then j1 + 1 else j1)" by (simp add: j_def)
        show "Less h m j i = Some (ks ! b < ks ! a)" by (rule L)
        show "\<not> \<not> ks ! b < ks ! a" using T by simp
        show "Swap h m i j = Some (h1, m1)" using S by (simp add: ia jb)
        show "(h1, m1) = (h1, m1)" ..
      qed
      then obtain i' h' m' where r: "down_loop h1 m1 j n = (Return i', h', m')" and ji: "j \<le> i'"
        and ok': "index_ok h' m'" and sp': "same_pool h1 m1 h' m'"
        and same: "i' = j \<longrightarrow> h' = h1 \<and> m' = m1"
        and hp: "0 \<le> j \<and> j < n \<and> heap_except (keys h1 m1) (nat j) \<longrightarrow>
              (if i' = j then children_ok (keys h1 m1) (nat j) else heap_ok (keys h' m'))"
        by blast
      have ij: "i < j" using pb parent_less[of b] by (simp add: ia jb)
      have heap: "heap_ok (keys h' m')" if E: "heap_except ks a"
      proof -
        have st: "heap_except (swap ks a b) b \<and> parent_ok (swap ks a b) b"
          using down_step[OF E pb(2) _ pb(1) T bmin] bl lks by simp
        have jn: "0 \<le> j \<and> j < n" using bl "1.prems"(2) by (simp add: jb)
        show ?thesis
        proof (cases "i' = j")
          case True
          then have "children_ok (keys h1 m1) b" using hp jn st k1 by (simp add: jb)
          then have "heap_ok (keys h1 m1)" using st k1 by (auto intro: heap_okI)
          then show ?thesis using same True by simp
        next
          case False
          then show ?thesis using hp jn st k1 by (simp add: jb)
        qed
      qed
      show ?thesis
        using D r ji ij ok' same_pool_trans[OF sp1 sp'] heap
        by (auto simp: ks_def a_def)
    qed
  qed
qed

lemma down_loop_outside:
  assumes "\<not> in_range h i" "n = int (length h)"
  shows "down_loop h m i n = (Return i, h, m)"
proof -
  have "n \<le> 2 * i + 1 \<or> 2 * i + 1 < 0" using assms by (auto simp: in_range_def)
  then show ?thesis by (subst down_loop.simps) (simp add: Let_def)
qed

lemma sdiv2_parent: "0 < j \<Longrightarrow> (int j - 1) sdiv 2 = int (parent j)"
proof -
  assume j: "0 < j"
  then have "(int j - 1) sdiv 2 = (int j - 1) div 2"
    by (simp add: signed_divide_int_def sgn_if)
  also have "\<dots> = int ((j - 1) div 2)" using j by (simp add: zdiv_int of_nat_diff)
  finally show ?thesis by (simp add: parent_def)
qed

lemma up_props:
  assumes "index_ok h m"
  shows "\<exists>r h' m'. up h m j = (r, h', m') \<and> index_ok h' m' \<and> same_pool h m h' m' \<and>
           (in_range h j \<longrightarrow> r = Return () \<and>
              (heap_except (keys h m) (nat j) \<and> children_ok (keys h m) (nat j) \<longrightarrow> heap_ok (keys h' m'))) \<and>
           (\<not> in_range h j \<longrightarrow> h' = h \<and> m' = m)"
  using assms
proof (induction h m j rule: up.induct)
  case (1 h m j)
  define i where "i = (j - 1) sdiv 2"
  define ks where "ks = keys h m"
  have lks: "length ks = length h" by (simp add: ks_def)
  show ?case
  proof (cases "i = j")
    case True
    have U: "up h m j = (Return (), h, m)"
      by (subst up.simps) (use True in \<open>simp add: i_def[symmetric] Let_def\<close>)
    have "heap_ok ks" if "in_range h j" "heap_except ks (nat j)" "children_ok ks (nat j)"
    proof -
      have "j = 0"
      proof (rule ccontr)
        assume "j \<noteq> 0"
        then have "0 < nat j" using that(1) by (simp add: in_range_def)
        from sdiv2_parent[OF this] parent_less[OF this] that(1) True show False
          by (simp add: i_def in_range_def)
      qed
      then have "parent_ok ks (nat j)" by (simp add: parent_ok_def)
      with that show ?thesis by (auto intro: heap_okI)
    qed
    then show ?thesis using U "1.prems" by (auto simp: same_pool_refl ks_def)
  next
    case False
    show ?thesis
    proof (cases "in_range h j")
      case F: False
      then have "Less h m j i = None" by (simp add: Less_def)
      then have U: "up h m j = (Panic, h, m)"
        by (subst up.simps) (use False in \<open>simp add: i_def[symmetric] Let_def\<close>)
      show ?thesis using U F "1.prems" by (simp add: same_pool_refl)
    next
      case T: True
      define b where "b = nat j"
      have jb: "j = int b" and bl: "b < length h" using T by (auto simp: b_def in_range_def)
      have b0: "0 < b"
      proof (rule ccontr)
        assume "\<not> 0 < b"
        then have "j = 0" using jb by simp
        then show False using False by (simp add: i_def signed_divide_int_def)
      qed
      define p where "p = parent b"
      have ip: "i = int p" using sdiv2_parent[OF b0] by (simp add: i_def jb p_def)
      have pb: "p < b" using parent_less[OF b0] by (simp add: p_def)
      then have pl: "p < length h" using bl by simp
      have L: "Less h m j i = Some (ks ! b < ks ! p)"
        using Less_keys[OF bl pl, of m] by (simp add: jb ip ks_def)
      show ?thesis
      proof (cases "ks ! b < ks ! p")
        case lt: False
        have U: "up h m j = (Return (), h, m)"
          by (subst up.simps) (use False L lt in \<open>simp add: i_def[symmetric] Let_def\<close>)
        have "heap_ok ks" if "heap_except ks b" "children_ok ks b"
        proof -
          have "parent_ok ks b" using lt by (simp add: parent_ok_def p_def)
          with that show ?thesis by (auto intro: heap_okI)
        qed
        then show ?thesis using U T "1.prems" by (auto simp: same_pool_refl ks_def b_def)
      next
        case lt: True
        obtain h1 m1 where S: "Swap h m (int p) (int b) = Some (h1, m1)" and ok1: "index_ok h1 m1"
          and sp1: "same_pool h m h1 m1" and k1: "keys h1 m1 = swap ks p b"
          using Swap_props[OF "1.prems" pl bl] unfolding ks_def by blast
        have U: "up h m j = up h1 m1 i"
          by (subst up.simps)
            (use False L lt S in \<open>simp add: i_def[symmetric] Let_def ip[symmetric] jb[symmetric]\<close>)
        have IH: "\<exists>r h' m'. up h1 m1 i = (r, h', m') \<and> index_ok h' m' \<and> same_pool h1 m1 h' m' \<and>
           (in_range h1 i \<longrightarrow> r = Return () \<and>
              (heap_except (keys h1 m1) (nat i) \<and> children_ok (keys h1 m1) (nat i) \<longrightarrow> heap_ok (keys h' m'))) \<and>
           (\<not> in_range h1 i \<longrightarrow> h' = h1 \<and> m' = m1)"
        proof (rule "1.IH"[OF _ _ _ _ _ _ ok1])
          show "i = (j - 1) sdiv 2" by (simp add: i_def)
          show "i \<noteq> j" by (rule False)
          show "Less h m j i = Some (ks ! b < ks ! p)" by (rule L)
          show "\<not> \<not> ks ! b < ks ! p" using lt by simp
          show "Swap h m i j = Some (h1, m1)" using S by (simp add: ip jb)
          show "(h1, m1) = (h1, m1)" ..
        qed
        then obtain r h' m' where r: "up h1 m1 i = (r, h', m')" and ok': "index_ok h' m'"
          and sp': "same_pool h1 m1 h' m'"
          and hp: "in_range h1 i \<longrightarrow> r = Return () \<and>
              (heap_except (keys h1 m1) (nat i) \<and> children_ok (keys h1 m1) (nat i) \<longrightarrow> heap_ok (keys h' m'))"
          by blast
        have ir: "in_range h1 i" using pl sp1 by (simp add: in_range_def ip same_pool_def)
        have heap: "heap_ok (keys h' m')" if "heap_except ks b" "children_ok ks b"
        proof -
          have "heap_except (swap ks p b) p \<and> children_ok (swap ks p b) p"
            using up_step[OF that b0 _ ] lt bl lks by (simp add: p_def)
          then show ?thesis using hp ir k1 by (simp add: ip)
        qed
        show ?thesis
          using U r ok' same_pool_trans[OF sp1 sp'] hp ir heap T
          by (auto simp: ks_def b_def)
      qed
    qed
  qed
qed

lemma Fix_props:
  assumes ok: "index_ok h m"
  shows "\<exists>r h' m'. Fix h m i = (r, h', m') \<and> index_ok h' m' \<and> same_pool h m h' m' \<and>
           (in_range h i \<longrightarrow> r = Return () \<and>
              (heap_except (keys h m) (nat i) \<longrightarrow> heap_ok (keys h' m'))) \<and>
           (\<not> in_range h i \<longrightarrow> h' = h \<and> m' = m)"
proof -
  obtain i' h1 m1 where D: "down_loop h m i (int (length h)) = (Return i', h1, m1)" and ii: "i \<le> i'"
    and ok1: "index_ok h1 m1" and sp1: "same_pool h m h1 m1"
    and same: "i' = i \<longrightarrow> h1 = h \<and> m1 = m"
    and hp: "0 \<le> i \<and> i < int (length h) \<and> heap_except (keys h m) (nat i) \<longrightarrow>
              (if i' = i then children_ok (keys h m) (nat i) else heap_ok (keys h1 m1))"
    using down_loop_props[OF ok refl, of i] by blast
  show ?thesis
  proof (cases "i < i'")
    case True
    then have F: "Fix h m i = (Return (), h1, m1)"
      by (simp add: Fix_def down_def Len_def D)
    have "in_range h i" using True down_loop_outside[OF _ refl, of h i m] D by auto
    then show ?thesis using F ok1 sp1 hp True by (auto simp: in_range_def)
  next
    case False
    then have e: "i' = i" using ii by simp
    then have F: "Fix h m i = up h m i"
      using same by (simp add: Fix_def down_def Len_def D)
    obtain r h' m' where U: "up h m i = (r, h', m')" and ok': "index_ok h' m'"
      and sp': "same_pool h m h' m'"
      and hp': "in_range h i \<longrightarrow> r = Return () \<and>
              (heap_except (keys h m) (nat i) \<and> children_ok (keys h m) (nat i) \<longrightarrow> heap_ok (keys h' m'))"
      and out: "\<not> in_range h i \<longrightarrow> h' = h \<and> m' = m"
      using up_props[OF ok, of i] by blast
    show ?thesis using F U ok' sp' hp' out hp e by (auto simp: in_range_def)
  qed
qed

lemma index_ok_upd:
  assumes "index x = index (m a)"
  shows "index_ok h (m(a := x)) = index_ok h m"
  using assms by (auto simp: index_ok_iff)

lemma keys_upd_in:
  assumes "distinct h" "i < length h"
  shows "keys h (m(h ! i := x)) = (keys h m)[i := sint (ref x)]"
proof (rule nth_equalityI)
  show "length (keys h (m(h ! i := x))) = length ((keys h m)[i := sint (ref x)])" by simp
next
  fix k assume "k < length (keys h (m(h ! i := x)))"
  then have k: "k < length h" by simp
  show "keys h (m(h ! i := x)) ! k = (keys h m)[i := sint (ref x)] ! k"
    using assms k by (auto simp: keys_def nth_list_update nth_eq_iff_index_eq)
qed

lemma keys_upd_out:
  assumes "a \<notin> set h"
  shows "keys h (m(a := x)) = keys h m"
  using assms by (auto simp: keys_def)

lemma Fix_after_update:
  assumes ok: "index_ok h m" and hp: "heap_ok (keys h m)" and ix: "index x = index (m a)"
  shows "\<exists>r h' m'. Fix h (m(a := x)) (index x) = (r, h', m') \<and> index_ok h' m' \<and>
           heap_ok (keys h' m') \<and> same_pool h (m(a := x)) h' m' \<and> (a \<in> set h \<longrightarrow> r = Return ())"
proof -
  define m1 where "m1 = m(a := x)"
  have ok1: "index_ok h m1" using ok ix by (simp add: m1_def index_ok_upd)
  obtain r h' m' where F: "Fix h m1 (index x) = (r, h', m')" and ok': "index_ok h' m'"
    and sp: "same_pool h m1 h' m'"
    and inr: "in_range h (index x) \<longrightarrow> r = Return () \<and>
              (heap_except (keys h m1) (nat (index x)) \<longrightarrow> heap_ok (keys h' m'))"
    and out: "\<not> in_range h (index x) \<longrightarrow> h' = h \<and> m' = m1"
    using Fix_props[OF ok1, of "index x"] by blast
  show ?thesis
  proof (cases "a \<in> set h")
    case True
    then obtain i where i: "i < length h" "h ! i = a" by (auto simp: in_set_conv_nth)
    then have xi: "index x = int i" using ok ix by (auto simp: index_ok_iff)
    have "keys h m1 = (keys h m)[i := sint (ref x)]"
      using keys_upd_in[OF index_ok_distinct[OF ok] i(1), of m x] i(2) by (simp add: m1_def)
    then have "heap_except (keys h m1) i" using heap_except_update[OF hp] by simp
    moreover have "in_range h (index x)" using i xi by (simp add: in_range_def)
    ultimately show ?thesis using F ok' sp inr xi by (auto simp: m1_def)
  next
    case False
    then have k: "keys h m1 = keys h m" by (simp add: m1_def keys_upd_out)
    then have "heap_except (keys h m1) (nat (index x))" using hp by (simp add: heap_ok_except)
    then have "heap_ok (keys h' m')" using inr out k hp by (cases "in_range h (index x)") auto
    then show ?thesis using F ok' sp False by (auto simp: m1_def)
  qed
qed

lemma Ref_empty: "clients c = [] \<Longrightarrow> Ref e c w = (Panic, c, w)"
  by (simp add: Ref_def)

lemma Ref_fail:
  assumes "clients c = s # rest" "ref (mem w s) = 0" "ping_err e = Some pe" "connect_out e = Inl err"
  shows "Ref e c w = (Return (None, Some err), c,
           emit (EvConnect (clientOpts c)) (emit (EvDisconnect (mongo_Client (mem w s)))
             (emit (EvPing (mongo_Client (mem w s))) w)))"
  using assms by (simp add: Ref_def Let_def emit_def)

lemma Ref_go:
  assumes c: "clients c = s # rest"
    and ok: "\<not> (ref (mem w s) = 0 \<and> ping_err e \<noteq> None \<and> isl (connect_out e))"
  shows "\<exists>x. index x = index (mem w s) \<and> ref x = ref (mem w s) + 1 \<and>
           mongo_Client x = (if ref (mem w s) = 0 \<and> ping_err e \<noteq> None
                             then projr (connect_out e) else mongo_Client (mem w s)) \<and>
           Ref e c w =
             (case Fix (clients c) ((mem w)(s := x)) 0 of
                (Panic, h, m) \<Rightarrow> (Panic, c\<lparr>clients := h\<rparr>, w\<lparr>trace := trace w @ Ref_events e c w s, mem := m\<rparr>)
              | (Return _, h, m) \<Rightarrow> (Return (Some s, None), c\<lparr>clients := h\<rparr>, w\<lparr>trace := trace w @ Ref_events e c w s, mem := m\<rparr>))"
proof (cases "ref (mem w s) = 0")
  case False
  then show ?thesis using c
    by (intro exI[of _ "(mem w s)\<lparr>ref := ref (mem w s) + 1\<rparr>"])
      (simp add: Ref_def Let_def Ref_events_def split: prod.splits outcome.splits)
next
  case z: True
  show ?thesis
  proof (cases "ping_err e")
    case None
    then show ?thesis using c z
      by (intro exI[of _ "(mem w s)\<lparr>ref := ref (mem w s) + 1\<rparr>"])
        (simp add: Ref_def Let_def Ref_events_def emit_def split: prod.splits outcome.splits)
  next
    case (Some pe)
    then obtain nc where nc: "connect_out e = Inr nc" using ok z by (cases "connect_out e") auto
    show ?thesis using c z Some nc
      by (intro exI[of _ "(mem w s)\<lparr>mongo_Client := nc, ref := ref (mem w s) + 1\<rparr>"])
        (simp add: Ref_def Let_def Ref_events_def emit_def split: prod.splits outcome.splits)
  qed
qed

lemma Ref_ok:
  assumes inv: "pool_inv c w" and c: "clients c = s # rest"
    and ok: "\<not> (ref (mem w s) = 0 \<and> ping_err e \<noteq> None \<and> isl (connect_out e))"
  shows "\<exists>c' w'. Ref e c w = (Return (Some s, None), c', w') \<and> pool_inv c' w' \<and>
           set (clients c') = set (clients c) \<and> length (clients c') = length (clients c) \<and>
           clientOpts c' = clientOpts c \<and>
           trace w' = trace w @ Ref_events e c w s \<and> counters w' = counters w \<and>
           next_addr w' = next_addr w \<and>
           (\<forall>a. ref (mem w' a) = (if a = s then ref (mem w s) + 1 else ref (mem w a))) \<and>
           (\<forall>a. a \<noteq> s \<longrightarrow> mongo_Client (mem w' a) = mongo_Client (mem w a)) \<and>
           mongo_Client (mem w' s) = (if ref (mem w s) = 0 \<and> ping_err e \<noteq> None
                             then projr (connect_out e) else mongo_Client (mem w s))"
proof -
  obtain x where x: "index x = index (mem w s)" "ref x = ref (mem w s) + 1"
      "mongo_Client x = (if ref (mem w s) = 0 \<and> ping_err e \<noteq> None
                             then projr (connect_out e) else mongo_Client (mem w s))"
    and R: "Ref e c w =
             (case Fix (clients c) ((mem w)(s := x)) 0 of
                (Panic, h, m) \<Rightarrow> (Panic, c\<lparr>clients := h\<rparr>, w\<lparr>trace := trace w @ Ref_events e c w s, mem := m\<rparr>)
              | (Return _, h, m) \<Rightarrow> (Return (Some s, None), c\<lparr>clients := h\<rparr>, w\<lparr>trace := trace w @ Ref_events e c w s, mem := m\<rparr>))"
    using Ref_go[OF c ok] by blast
  have iok: "index_ok (clients c) (mem w)" and hok: "heap_ok (keys (clients c) (mem w))"
    using inv by (auto simp: pool_inv_def)
  have s0: "index (mem w s) = 0" using iok c by (auto simp: index_ok_iff)
  have sin: "s \<in> set (clients c)" using c by simp
  obtain r h' m' where F: "Fix (clients c) ((mem w)(s := x)) (index x) = (r, h', m')"
    and ok': "index_ok h' m'" and hp': "heap_ok (keys h' m')"
    and sp: "same_pool (clients c) ((mem w)(s := x)) h' m'" and r: "s \<in> set (clients c) \<longrightarrow> r = Return ()"
    using Fix_after_update[OF iok hok x(1)] by blast
  have F0: "Fix (clients c) ((mem w)(s := x)) 0 = (Return (), h', m')"
    using F r sin x(1) s0 by simp
  have refs: "ref (m' a) = (if a = s then ref (mem w s) + 1 else ref (mem w a))"
    and cl: "mongo_Client (m' a) = (if a = s then mongo_Client x else mongo_Client (mem w a))" for a
    using sp x by (auto simp: same_pool_def)
  have ls: "length h' = length (clients c)" "set h' = set (clients c)"
    using sp by (auto simp: same_pool_def)
  show ?thesis
    using R F0 ok' hp' ls refs cl x(3) by (simp add: pool_inv_def)
qed

lemma Ref_inv:
  assumes inv: "pool_inv c w"
  shows "\<exists>r c' w'. Ref e c w = (r, c', w') \<and> pool_inv c' w' \<and>
           length (clients c') = length (clients c) \<and> set (clients c') = set (clients c)"
proof (cases "clients c")
  case Nil
  then show ?thesis using inv by (simp add: Ref_empty)
next
  case (Cons s rest)
  show ?thesis
  proof (cases "ref (mem w s) = 0 \<and> ping_err e \<noteq> None \<and> isl (connect_out e)")
    case True
    then obtain pe err where "ping_err e = Some pe" "connect_out e = Inl err"
      by (cases "connect_out e") auto
    from Ref_fail[OF Cons _ this] True show ?thesis
      using inv by (simp add: pool_inv_def emit_def)
  next
    case False
    from Ref_ok[OF inv Cons False] show ?thesis by blast
  qed
qed

lemma UnRef_props:
  assumes inv: "pool_inv c w"
  shows "\<exists>r c' w'. UnRef s c w = (r, c', w') \<and> pool_inv c' w' \<and>
           set (clients c') = set (clients c) \<and> length (clients c') = length (clients c) \<and>
           clientOpts c' = clientOpts c \<and>
           trace w' = trace w \<and> counters w' = counters w \<and> next_addr w' = next_addr w \<and>
           (\<forall>a. ref (mem w' a) = (if s = Some a then ref (mem w a) - 1 else ref (mem w a))) \<and>
           (\<forall>a. mongo_Client (mem w' a) = mongo_Client (mem w a)) \<and>
           ((case s of None \<Rightarrow> True | Some a \<Rightarrow> a \<in> set (clients c)) \<longrightarrow> r = Return ())"
proof (cases s)
  case None
  then show ?thesis using inv by (simp add: UnRef_def)
next
  case (Some a)
  define x where "x = (mem w a)\<lparr>ref := ref (mem w a) - 1\<rparr>"
  have ix: "index x = index (mem w a)" by (simp add: x_def)
  have iok: "index_ok (clients c) (mem w)" and hok: "heap_ok (keys (clients c) (mem w))"
    using inv by (auto simp: pool_inv_def)
  obtain r h' m' where F: "Fix (clients c) ((mem w)(a := x)) (index x) = (r, h', m')"
    and ok': "index_ok h' m'" and hp': "heap_ok (keys h' m')"
    and sp: "same_pool (clients c) ((mem w)(a := x)) h' m'" and r: "a \<in> set (clients c) \<longrightarrow> r = Return ()"
    using Fix_after_update[OF iok hok ix] by blast
  have U: "UnRef s c w = (r, c\<lparr>clients := h'\<rparr>, w\<lparr>mem := m'\<rparr>)"
    using F by (simp add: UnRef_def Some Let_def x_def)
  have refs: "ref (m' b) = (if b = a then ref (mem w a) - 1 else ref (mem w b))"
    and cl: "mongo_Client (m' b) = mongo_Client (mem w b)" for b
    using sp by (auto simp: same_pool_def x_def)
  have ls: "length h' = length (clients c)" "set h' = set (clients c)"
    using sp by (auto simp: same_pool_def)
  show ?thesis
    using U ok' hp' ls refs cl r Some by (auto simp: pool_inv_def)
qed

lemma run_inv:
  assumes "pool_inv c w" "run calls c w = (c', w')"
  shows "pool_inv c' w' \<and> length (clients c') = length (clients c) \<and> set (clients c') = set (clients c)"
  using assms
proof (induction calls arbitrary: c w)
  case Nil
  then show ?case by simp
next
  case (Cons x calls)
  show ?case
  proof (cases x)
    case (CallRef e)
    obtain r c1 w1 where R: "Ref e c w = (r, c1, w1)" and i1: "pool_inv c1 w1"
      and l1: "length (clients c1) = length (clients c)" "set (clients c1) = set (clients c)"
      using Ref_inv[OF Cons.prems(1), of e] by blast
    have "run calls c1 w1 = (c', w')" using Cons.prems(2) CallRef R by simp
    from Cons.IH[OF i1 this] l1 show ?thesis by simp
  next
    case (CallUnRef s)
    obtain r c1 w1 where R: "UnRef s c w = (r, c1, w1)" and i1: "pool_inv c1 w1"
      and l1: "length (clients c1) = length (clients c)" "set (clients c1) = set (clients c)"
      using UnRef_props[OF Cons.prems(1), of s] by blast
    have "run calls c1 w1 = (c', w')" using Cons.prems(2) CallUnRef R by simp
    from Cons.IH[OF i1 this] l1 show ?thesis by simp
  qed
qed

lemma Init_loop_props:
  assumes "index_ok h m" "n = int (length h)"
  shows "\<exists>h' m'. Init_loop h m i n = (Return (), h', m') \<and> index_ok h' m' \<and>
           same_pool h m h' m' \<and> (heap_ok (keys h m) \<longrightarrow> heap_ok (keys h' m'))"
  using assms
proof (induction h m i n rule: Init_loop.induct)
  case (1 h m i n)
  show ?case
  proof (cases "0 \<le> i")
    case False
    then have "Init_loop h m i n = (Return (), h, m)"
      by (subst Init_loop.simps) simp
    then show ?thesis using "1.prems" by (simp add: same_pool_refl)
  next
    case True
    obtain i' h1 m1 where D: "down_loop h m i n = (Return i', h1, m1)" and ii: "i \<le> i'"
      and ok1: "index_ok h1 m1" and sp1: "same_pool h m h1 m1"
      and same: "i' = i \<longrightarrow> h1 = h \<and> m1 = m"
      and hp: "0 \<le> i \<and> i < n \<and> heap_except (keys h m) (nat i) \<longrightarrow>
              (if i' = i then children_ok (keys h m) (nat i) else heap_ok (keys h1 m1))"
      using down_loop_props[OF "1.prems", of i] by blast
    have dn: "down h m i n = (Return (i < i'), h1, m1)" by (simp add: down_def D)
    have n1: "n = int (length h1)" using sp1 "1.prems"(2) by (simp add: same_pool_def)
    have "\<exists>h' m'. Init_loop h1 m1 (i - 1) n = (Return (), h', m') \<and> index_ok h' m' \<and>
           same_pool h1 m1 h' m' \<and> (heap_ok (keys h1 m1) \<longrightarrow> heap_ok (keys h' m'))"
      by (rule "1.IH"[OF True _ _ _ ok1 n1, of "Return (i < i')" "(h1, m1)" "i < i'"])
        (simp_all add: dn)
    then obtain h' m' where I: "Init_loop h1 m1 (i - 1) n = (Return (), h', m')"
      and ok': "index_ok h' m'" and sp': "same_pool h1 m1 h' m'"
      and hp': "heap_ok (keys h1 m1) \<longrightarrow> heap_ok (keys h' m')" by blast
    have E: "Init_loop h m i n = (Return (), h', m')"
      by (subst Init_loop.simps) (simp add: True dn I)
    have "heap_ok (keys h1 m1)" if H: "heap_ok (keys h m)"
    proof (cases "i' = i")
      case True
      then show ?thesis using same H by simp
    next
      case False
      then have "in_range h i"
        using down_loop_outside[OF _ "1.prems"(2), of i m] D by auto
      then show ?thesis
        using hp False heap_ok_except[OF H] "1.prems"(2) by (simp add: in_range_def)
    qed
    then show ?thesis using E ok' same_pool_trans[OF sp1 sp'] hp' by auto
  qed
qed

lemma Init_props:
  assumes "index_ok h m"
  shows "\<exists>h' m'. Init h m = (Return (), h', m') \<and> index_ok h' m' \<and>
           same_pool h m h' m' \<and> (heap_ok (keys h m) \<longrightarrow> heap_ok (keys h' m'))"
  using Init_loop_props[OF assms refl] by (simp add: Init_def Len_def Let_def)

lemma connect_loop_props:
  assumes "fresh_inv cs w" "i = int (length cs)"
  shows "\<exists>r cs' w'. connect_loop outs opts i n cs w = (r, cs', w') \<and> counters w' = counters w \<and>
           (r = None \<longrightarrow> fresh_inv cs' w' \<and> int (length cs') = max i n)"
  using assms
proof (induction outs opts i n cs w rule: connect_loop.induct)
  case (1 outs opts i n cs w)
  show ?case
  proof (cases "i < n")
    case False
    then have "connect_loop outs opts i n cs w = (None, cs, w)"
      by (subst connect_loop.simps) simp
    then show ?thesis using "1.prems" False by simp
  next
    case True
    show ?thesis
    proof (cases "outs (nat i)")
      case (Inl err)
      then have "connect_loop outs opts i n cs w = (Some err, cs, emit (EvConnect opts) w)"
        by (subst connect_loop.simps) (simp add: True Let_def)
      then show ?thesis by (simp add: emit_def)
    next
      case (Inr b)
      define w1 where "w1 = emit (EvConnect opts) w"
      define a where "a = next_addr w1"
      define w2 where "w2 = w1\<lparr>mem := (mem w1)(a := \<lparr>mongo_Client = b, ref = 0, index = i\<rparr>),
                         next_addr := a + 1\<rparr>"
      have E: "connect_loop outs opts i n cs w = connect_loop outs opts (i + 1) n (cs @ [a]) w2"
        by (subst connect_loop.simps) (simp add: True Let_def Inr w1_def a_def w2_def)
      have an: "a = next_addr w" by (simp add: a_def w1_def emit_def)
      have fr: "\<forall>x \<in> set cs. x < a \<and> ref (mem w x) = 0" and iok: "index_ok cs (mem w)"
        using "1.prems"(1) an by (auto simp: fresh_inv_def)
      have m2: "mem w2 = (mem w)(a := \<lparr>mongo_Client = b, ref = 0, index = i\<rparr>)"
        by (simp add: w2_def w1_def emit_def)
      have "index_ok (cs @ [a]) (mem w2)"
        unfolding index_ok_iff
      proof (intro allI impI)
        fix k assume "k < length (cs @ [a])"
        then consider "k < length cs" | "k = length cs" by fastforce
        then show "index (mem w2 ((cs @ [a]) ! k)) = int k"
        proof cases
          case 1
          then have "cs ! k \<noteq> a" using fr by (metis less_irrefl nth_mem)
          then show ?thesis using 1 iok by (simp add: m2 nth_append index_ok_iff)
        next
          case 2
          then show ?thesis using "1.prems"(2) by (simp add: m2 nth_append)
        qed
      qed
      moreover have "next_addr w2 = a + 1" by (simp add: w2_def)
      then have "\<forall>x \<in> set (cs @ [a]). x < next_addr w2 \<and> ref (mem w2 x) = 0"
        using fr by (auto simp: m2)
      ultimately have f2: "fresh_inv (cs @ [a]) w2" by (simp add: fresh_inv_def)
      have "\<exists>r cs' w'. connect_loop outs opts (i + 1) n (cs @ [a]) w2 = (r, cs', w') \<and>
           counters w' = counters w2 \<and>
           (r = None \<longrightarrow> fresh_inv cs' w' \<and> int (length cs') = max (i + 1) n)"
        by (rule "1.IH"[OF True w1_def Inr a_def w2_def f2]) (simp add: "1.prems"(2))
      moreover have "counters w2 = counters w" by (simp add: w2_def w1_def emit_def)
      moreover have "max (i + 1) n = max i n" using True by simp
      ultimately show ?thesis using E by auto
    qed
  qed
qed

lemma connect_loop_fail:
  assumes "i \<le> int k" "int k < n" "outs k = Inl err"
    and "\<forall>j. i \<le> int j \<and> j < k \<longrightarrow> \<not> isl (outs j)" "0 \<le> i"
  shows "fst (connect_loop outs opts i n cs w) = Some err"
  using assms
proof (induction outs opts i n cs w rule: connect_loop.induct)
  case (1 outs opts i n cs w)
  have lt: "i < n" using "1.prems" by simp
  show ?case
  proof (cases "i = int k")
    case True
    then have "outs (nat i) = Inl err" using "1.prems"(3) by simp
    then show ?thesis
      by (subst connect_loop.simps) (simp add: lt Let_def)
  next
    case False
    then have ik: "i < int k" using "1.prems"(1) by simp
    then have "\<not> isl (outs (nat i))" using "1.prems"(4,5) by (simp add: nat_less_iff)
    then obtain b where b: "outs (nat i) = Inr b" by (cases "outs (nat i)") auto
    have "fst (connect_loop outs opts (i + 1) n
             (cs @ [next_addr (emit (EvConnect opts) w)])
             ((emit (EvConnect opts) w)\<lparr>mem := (mem (emit (EvConnect opts) w))
                 (next_addr (emit (EvConnect opts) w) := \<lparr>mongo_Client = b, ref = 0, index = i\<rparr>),
                 next_addr := next_addr (emit (EvConnect opts) w) + 1\<rparr>)) = Some err"
      by (rule "1.IH"[OF lt refl b refl refl]) (use "1.prems" ik in auto)
    then show ?thesis
      by (subst connect_loop.simps) (simp add: lt Let_def b)
  qed
qed

lemma connect_loop_succeeds:
  assumes "\<forall>j. i \<le> int j \<and> int j < n \<longrightarrow> \<not> isl (outs j)" "0 \<le> i"
  shows "fst (connect_loop outs opts i n cs w) = None"
  using assms
proof (induction outs opts i n cs w rule: connect_loop.induct)
  case (1 outs opts i n cs w)
  show ?case
  proof (cases "i < n")
    case False
    then show ?thesis by (subst connect_loop.simps) simp
  next
    case lt: True
    then have "\<not> isl (outs (nat i))" using "1.prems" by simp
    then obtain b where b: "outs (nat i) = Inr b" by (cases "outs (nat i)") auto
    have "fst (connect_loop outs opts (i + 1) n
             (cs @ [next_addr (emit (EvConnect opts) w)])
             ((emit (EvConnect opts) w)\<lparr>mem := (mem (emit (EvConnect opts) w))
                 (next_addr (emit (EvConnect opts) w) := \<lparr>mongo_Client = b, ref = 0, index = i\<rparr>),
                 next_addr := next_addr (emit (EvConnect opts) w) + 1\<rparr>)) = None"
      by (rule "1.IH"[OF lt refl b refl refl]) (use "1.prems" in auto)
    then show ?thesis
      by (subst connect_loop.simps) (simp add: lt Let_def b)
  qed
qed

lemma heap_ok_const:
  assumes "\<forall>k < length ks. ks ! k = v"
  shows "heap_ok ks"
  unfolding heap_ok_iff using assms parent_less by (metis less_trans order_refl)

lemma ConnectWithTimeout_inv:
  assumes "ConnectWithTimeout url clientNum ct t outs w0 = (Return (Some c, err), w)"
  shows "pool_inv c w \<and> int (length (clients c)) = poolSize clientNum \<and> err = None \<and>
         (\<forall>a \<in> set (clients c). ref (mem w a) = 0) \<and> counters w = counters w0 \<and>
         clientOpts c = \<lparr>uri = url, connectTimeout = ct, timeout = t\<rparr>"
proof -
  define N where "N = poolSize clientNum"
  define w1 where "w1 = (if clientNum \<le> 0 then emit (EvLogRelease 100) w0 else w0)"
  define opts where "opts = \<lparr>uri = url, connectTimeout = ct, timeout = t\<rparr>"
  have Npos: "0 < N" by (simp add: N_def poolSize_def)
  have f0: "fresh_inv [] w1" by (simp add: fresh_inv_def index_ok_iff)
  obtain r cs w2 where L: "connect_loop outs opts 0 N [] w1 = (r, cs, w2)"
    and cn: "counters w2 = counters w1"
    and f2: "r = None \<longrightarrow> fresh_inv cs w2 \<and> int (length cs) = max 0 N"
    using connect_loop_props[OF f0, of 0 outs opts N] by auto
  have C: "ConnectWithTimeout url clientNum ct t outs w0 =
     (case connect_loop outs opts 0 N [] w1 of
          (Some err, cs, w1) \<Rightarrow> (Return (None, Some err), w1)
        | (None, cs, w1) \<Rightarrow>
            (case Init cs (mem w1) of
               (Panic, h, m) \<Rightarrow> (Panic, w1\<lparr>mem := m\<rparr>)
             | (Return _, h, m) \<Rightarrow>
                 (Return (Some \<lparr>clients = h, clientOpts = opts\<rparr>, None), w1\<lparr>mem := m\<rparr>)))"
    unfolding ConnectWithTimeout_def N_def poolSize_def w1_def opts_def Let_def by simp
  have rn: "r = None" using assms C L by (cases r) auto
  then have fr: "fresh_inv cs w2" and len: "int (length cs) = N" using f2 Npos by auto
  then have iok: "index_ok cs (mem w2)" and z: "\<forall>a \<in> set cs. ref (mem w2 a) = 0"
    by (auto simp: fresh_inv_def)
  have "heap_ok (keys cs (mem w2))"
    by (rule heap_ok_const[of _ 0]) (use z in \<open>simp add: keys_def\<close>)
  then obtain h' m' where I: "Init cs (mem w2) = (Return (), h', m')" and ok': "index_ok h' m'"
    and sp: "same_pool cs (mem w2) h' m'" and hp: "heap_ok (keys h' m')"
    using Init_props[OF iok] by blast
  have res: "c = \<lparr>clients = h', clientOpts = opts\<rparr>" "err = None" "w = w2\<lparr>mem := m'\<rparr>"
    using assms C L rn I by auto
  have "counters w1 = counters w0" by (simp add: w1_def emit_def)
  then show ?thesis
    using res ok' hp sp len z cn by (auto simp: pool_inv_def same_pool_def N_def opts_def)
qed

lemma ConnectWithTimeout_succeeds:
  assumes "\<forall>j. int j < poolSize clientNum \<longrightarrow> \<not> isl (outs j)"
  shows "\<exists>c w. ConnectWithTimeout url clientNum ct t outs w0 = (Return (Some c, None), w)"
proof -
  define N where "N = poolSize clientNum"
  define w1 where "w1 = (if clientNum \<le> 0 then emit (EvLogRelease 100) w0 else w0)"
  define opts where "opts = \<lparr>uri = url, connectTimeout = ct, timeout = t\<rparr>"
  have f0: "fresh_inv [] w1" by (simp add: fresh_inv_def index_ok_iff)
  obtain r cs w2 where L: "connect_loop outs opts 0 N [] w1 = (r, cs, w2)"
    and f2: "r = None \<longrightarrow> fresh_inv cs w2 \<and> int (length cs) = max 0 N"
    using connect_loop_props[OF f0, of 0 outs opts N] by auto
  have "fst (connect_loop outs opts 0 N [] w1) = None"
    by (rule connect_loop_succeeds) (use assms in \<open>auto simp: N_def\<close>)
  then have rn: "r = None" using L by simp
  then have iok: "index_ok cs (mem w2)" using f2 by (auto simp: fresh_inv_def)
  obtain h' m' where I: "Init cs (mem w2) = (Return (), h', m')"
    using Init_props[OF iok] by blast
  have "ConnectWithTimeout url clientNum ct t outs w0 =
     (case connect_loop outs opts 0 N [] w1 of
          (Some err, cs, w1) \<Rightarrow> (Return (None, Some err), w1)
        | (None, cs, w1) \<Rightarrow>
            (case Init cs (mem w1) of
               (Panic, h, m) \<Rightarrow> (Panic, w1\<lparr>mem := m\<rparr>)
             | (Return _, h, m) \<Rightarrow>
                 (Return (Some \<lparr>clients = h, clientOpts = opts\<rparr>, None), w1\<lparr>mem := m\<rparr>)))"
    unfolding ConnectWithTimeout_def N_def poolSize_def w1_def opts_def Let_def by simp
  then show ?thesis
    using L rn I by simp
qed

text \<open>Every pool reached from the constructor by \<open>Ref\<close> and \<open>UnRef\<close> calls is well formed.\<close>

lemma reachable_pool_inv:
  assumes "ConnectWithTimeout url clientNum ct t outs w0 = (Return (Some c0, err), w1)"
    and "run calls c0 w1 = (c, w)"
  shows "pool_inv c w \<and> clients c \<noteq> []"
proof -
  have i0: "pool_inv c0 w1" and l0: "int (length (clients c0)) = poolSize clientNum"
    using ConnectWithTimeout_inv[OF assms(1)] by simp_all
  have "pool_inv c w" and "length (clients c) = length (clients c0)"
    using run_inv[OF i0 assms(2)] by simp_all
  moreover have "0 < poolSize clientNum" by (simp add: poolSize_def)
  ultimately show ?thesis using l0 by auto
qed

lemmas eval_simps = ConnectWithTimeout_def connect_loop.simps Init_def Init_loop.simps Len_def
  down_def down_loop.simps up.simps Fix_def Less_def Swap_def in_range_def emit_def Let_def
  Ref_def UnRef_def empty_world_def all_up_def signed_divide_int_def healthy_def opts3_def
  fresh3_def pool3_def calls3_def

lemma fresh3_pool: "fst fresh3 = Return (Some pool3, None)"
  by (simp add: eval_simps)

lemma fresh3_eq: "ConnectWithTimeout ''mongodb://localhost:27017'' 3 10 10 all_up empty_world = (Return (Some pool3, None), snd fresh3)"
  using fresh3_pool by (simp add: prod_eq_iff fresh3_def)

lemma run3_clients: "clients (fst (run calls3 pool3 (snd fresh3))) = [0, 2, 1]"
  by (simp add: eval_simps)

lemma run3_refs: "map (\<lambda>a. ref (mem (snd (run calls3 pool3 (snd fresh3))) a)) [0, 1, 2] = [0, 1, 1]"
  by (simp add: eval_simps)

text \<open>
  C1. In a pool built by \<open>ConnectWithTimeout\<close> and then driven by any finite sequence of
  \<open>Ref\<close> and \<open>UnRef\<close> calls, the client at heap index 0 has a use count less than or equal
  to the use count of the client at every heap index.
\<close>

theorem heap_root_minimal:
  assumes "ConnectWithTimeout url clientNum ct t outs w0 = (Return (Some c0, err), w1)"
    and "run calls c0 w1 = (c, w)"
    and "i < length (clients c)"
  shows "useCount c w 0 \<le> useCount c w i"
proof -
  have "pool_inv c0 w1" using ConnectWithTimeout_inv[OF assms(1)] by simp
  then have "pool_inv c w" using run_inv[OF _ assms(2)] by simp
  then have "heap_ok (keys (clients c) (mem w))" by (simp add: pool_inv_def)
  moreover have "0 < length (clients c)" using assms(3) by (cases "clients c") auto
  ultimately show ?thesis
    using heap_root_min[of "keys (clients c) (mem w)" i] assms(3)
    by (simp add: useCount_def keys_def)
qed

theorem heap_root_minimal_witness:
  "ConnectWithTimeout ''mongodb://localhost:27017'' 3 10 10 all_up empty_world = (Return (Some pool3, None), snd fresh3)
   \<and> clients (fst (run calls3 pool3 (snd fresh3))) = [0, 2, 1]
   \<and> useCount (fst (run calls3 pool3 (snd fresh3))) (snd (run calls3 pool3 (snd fresh3))) 0
       \<le> useCount (fst (run calls3 pool3 (snd fresh3))) (snd (run calls3 pool3 (snd fresh3))) 2"
proof -
  have r: "run calls3 pool3 (snd fresh3) = (fst (run calls3 pool3 (snd fresh3)), snd (run calls3 pool3 (snd fresh3)))"
    by simp
  have l: "2 < length (clients (fst (run calls3 pool3 (snd fresh3))))"
    by (simp add: run3_clients)
  show ?thesis
    using heap_root_minimal[OF fresh3_eq r l] fresh3_eq run3_clients by simp
qed

lemma sint_dec:
  assumes "- (2 ^ 63) < sint (x :: 64 word)"
  shows "sint (x - 1) = sint x - 1"
proof -
  have "sint x < 2 ^ 63" using sint_lt[of x] by simp
  then have "signed_take_bit 63 (sint x - 1) = sint x - 1"
    using assms by (intro signed_take_bit_int_eq_self) auto
  then show ?thesis by (simp add: sint_word_diff)
qed

lemma sint_of_nat_small:
  assumes "k < 2 ^ 63"
  shows "sint (of_nat k :: 64 word) = int k"
proof -
  have "sint (of_nat k :: 64 word) = signed_take_bit 63 (int k)"
    by (simp add: signed_of_nat)
  also have "\<dots> = int k"
  proof (rule signed_take_bit_int_eq_self)
    show "- (2 ^ 63) \<le> int k" by (rule order_trans[of _ 0]) simp_all
    have "int k < int (2 ^ 63)" using assms by (simp only: of_nat_less_iff)
    then show "int k < 2 ^ 63" by simp
  qed
  finally show ?thesis .
qed

text \<open>What one \<open>Ref\<close> does to the use counts, by outcome.\<close>

lemma Ref_refs:
  assumes inv: "pool_inv c w"
  shows "\<exists>r c' w'. Ref e c w = (r, c', w') \<and> pool_inv c' w' \<and>
           set (clients c') = set (clients c) \<and>
           (\<forall>a. ref (mem w' a) = ref (mem w a) + (if r = Return (Some a, None) then 1 else 0)) \<and>
           (\<forall>a. credit r out a = out a + (if r = Return (Some a, None) then 1 else 0))"
proof (cases "clients c")
  case Nil
  then show ?thesis using inv by (simp add: Ref_empty credit_def)
next
  case (Cons s rest)
  show ?thesis
  proof (cases "ref (mem w s) = 0 \<and> ping_err e \<noteq> None \<and> isl (connect_out e)")
    case True
    then obtain pe err where "ping_err e = Some pe" "connect_out e = Inl err"
      by (cases "connect_out e") auto
    from Ref_fail[OF Cons _ this] True show ?thesis
      using inv by (simp add: pool_inv_def emit_def credit_def)
  next
    case False
    from Ref_ok[OF inv Cons False] obtain c' w' where
      R: "Ref e c w = (Return (Some s, None), c', w')" and i': "pool_inv c' w'"
      and s': "set (clients c') = set (clients c)"
      and r': "\<forall>a. ref (mem w' a) = (if a = s then ref (mem w s) + 1 else ref (mem w a))"
      by blast
    have a: "\<forall>a. ref (mem w' a) = ref (mem w a) + (if Return (Some s, None) = Return (Some a, None :: error option) then 1 else 0)"
      using r' by auto
    have b: "\<forall>a. credit (Return (Some s, None)) out a = out a + (if Return (Some s, None) = Return (Some a, None :: error option) then 1 else 0)"
      by (auto simp: credit_def)
    show ?thesis
      by (intro exI[of _ "Return (Some s, None)"] exI[of _ c'] exI[of _ w'] conjI) (fact R i' s' a b)+
  qed
qed

lemma matched_append: "matched out (pre @ post) c w \<Longrightarrow> matched out pre c w"
proof (induction pre arbitrary: out c w)
  case Nil
  then show ?case by simp
next
  case (Cons x pre)
  show ?case
  proof (cases x)
    case (CallRef e)
    obtain r c1 w1 where R: "Ref e c w = (r, c1, w1)" by (metis surj_pair)
    then have "matched (credit r out) (pre @ post) c1 w1" using Cons.prems CallRef by simp
    from Cons.IH[OF this] show ?thesis using CallRef R by simp
  next
    case (CallUnRef s)
    obtain r c1 w1 where R: "UnRef s c w = (r, c1, w1)" by (metis surj_pair)
    then have "matched (debit s out) (pre @ post) c1 w1" using Cons.prems CallUnRef by simp
    from Cons.IH[OF this] show ?thesis using CallUnRef R Cons.prems by simp
  qed
qed

text \<open>
  Along a matched sequence every client of the pool has as use count the number of its
  outstanding acquires, and that number is at most the number of calls made.
\<close>

lemma matched_run:
  assumes "pool_inv c w" and "\<forall>a \<in> set (clients c). ref (mem w a) = of_nat (out a)"
    and "matched out calls c w" and "run calls c w = (c', w')"
  shows "set (clients c') = set (clients c) \<and>
         (\<forall>a \<in> set (clients c'). ref (mem w' a) = of_nat (outstanding out calls c w a)) \<and>
         (\<forall>a. outstanding out calls c w a \<le> out a + length calls)"
  using assms
proof (induction calls arbitrary: out c w)
  case Nil
  then show ?case by simp
next
  case (Cons x calls)
  show ?case
  proof (cases x)
    case (CallRef e)
    from Ref_refs[OF Cons.prems(1), of e out] obtain r c1 w1 where
      R: "Ref e c w = (r, c1, w1)" and i1: "pool_inv c1 w1"
      and s1: "set (clients c1) = set (clients c)"
      and r1: "\<forall>a. ref (mem w1 a) = ref (mem w a) + (if r = Return (Some a, None) then 1 else 0)"
      and o1: "\<forall>a. credit r out a = out a + (if r = Return (Some a, None) then 1 else 0)"
      by blast
    have q1: "\<forall>a \<in> set (clients c1). ref (mem w1 a) = of_nat (credit r out a)"
      using Cons.prems(2) s1 r1 o1 by simp
    have m1: "matched (credit r out) calls c1 w1" using Cons.prems(3) CallRef R by simp
    have u1: "run calls c1 w1 = (c', w')" using Cons.prems(4) CallRef R by simp
    have IH: "set (clients c') = set (clients c1) \<and>
         (\<forall>a \<in> set (clients c'). ref (mem w' a) = of_nat (outstanding (credit r out) calls c1 w1 a)) \<and>
         (\<forall>a. outstanding (credit r out) calls c1 w1 a \<le> credit r out a + length calls)"
      by (rule Cons.IH[OF i1 q1 m1 u1])
    have e: "outstanding out (x # calls) c w = outstanding (credit r out) calls c1 w1"
      using CallRef R by simp
    have le: "\<forall>a. credit r out a + length calls \<le> out a + length (x # calls)"
      using o1 by simp
    show ?thesis
      unfolding e using IH s1 le by (metis order_trans)
  next
    case (CallUnRef s)
    from UnRef_props[OF Cons.prems(1), of s] obtain r c1 w1 where
      R: "UnRef s c w = (r, c1, w1)" and i1: "pool_inv c1 w1"
      and s1: "set (clients c1) = set (clients c)"
      and r1: "\<forall>a. ref (mem w1 a) = (if s = Some a then ref (mem w a) - 1 else ref (mem w a))"
      by blast
    have pos: "case s of Some a \<Rightarrow> 0 < out a | None \<Rightarrow> True"
      using Cons.prems(3) CallUnRef by simp
    have q1: "\<forall>a \<in> set (clients c1). ref (mem w1 a) = of_nat (debit s out a)"
    proof
      fix a assume a: "a \<in> set (clients c1)"
      then have ra: "ref (mem w a) = of_nat (out a)" using Cons.prems(2) s1 by simp
      show "ref (mem w1 a) = of_nat (debit s out a)"
      proof (cases "s = Some a")
        case True
        then have "0 < out a" using pos by simp
        then have "(of_nat (out a - 1) :: 64 word) = of_nat (out a) - 1"
          by (simp add: of_nat_diff)
        then show ?thesis using True r1 ra by (simp add: debit_def)
      next
        case False
        then have "debit s out a = out a" by (cases s) (auto simp: debit_def)
        then show ?thesis using False r1 ra by simp
      qed
    qed
    have m1: "matched (debit s out) calls c1 w1" using Cons.prems(3) CallUnRef R by simp
    have u1: "run calls c1 w1 = (c', w')" using Cons.prems(4) CallUnRef R by simp
    have IH: "set (clients c') = set (clients c1) \<and>
         (\<forall>a \<in> set (clients c'). ref (mem w' a) = of_nat (outstanding (debit s out) calls c1 w1 a)) \<and>
         (\<forall>a. outstanding (debit s out) calls c1 w1 a \<le> debit s out a + length calls)"
      by (rule Cons.IH[OF i1 q1 m1 u1])
    have e: "outstanding out (x # calls) c w = outstanding (debit s out) calls c1 w1"
      using CallUnRef R by simp
    have le: "\<forall>a. debit s out a + length calls \<le> out a + length (x # calls)"
      by (cases s) (auto simp: debit_def)
    show ?thesis
      unfolding e using IH s1 le by (metis order_trans)
  qed
qed

lemma in_range_nat: "in_range h i \<Longrightarrow> i = int (nat i) \<and> nat i < length h"
  by (auto simp: in_range_def)

lemma Swap_index_ok:
  assumes "index_ok h m" "Swap h m a b = Some (h1, m1)"
  shows "index_ok h1 m1"
proof -
  have r: "in_range h a" "in_range h b" using assms(2) by (auto simp: Swap_def split: if_splits)
  from Swap_props[OF assms(1), of "nat a" "nat b"] in_range_nat[OF r(1)] in_range_nat[OF r(2)] assms(2)
  show ?thesis by auto
qed

lemma fresh3_refs: "map (\<lambda>a. ref (mem (snd fresh3) a)) [0, 1, 2] = [0, 0, 0]"
  by (simp add: eval_simps)

text \<open>
  C2. When the client at the root is idle, its probe fails and the replacement connection
  cannot be established, \<open>Ref\<close> returns that connection error with no client; the heap
  slice and every field of every client object are as before the call.
\<close>

theorem Ref_reconnect_failure_no_mutation:
  assumes "clients c = s # rest" and "ref (mem w s) = 0"
    and "ping_err e = Some pe" and "connect_out e = Inl err"
  shows "fst (Ref e c w) = Return (None, Some err) \<and> fst (snd (Ref e c w)) = c \<and>
         mem (snd (snd (Ref e c w))) = mem w"
  using Ref_fail[OF assms] by (simp add: emit_def)

theorem Ref_reconnect_failure_no_mutation_witness:
  "clients pool3 = 0 # [1, 2] \<and> ref (mem (snd fresh3) 0) = 0 \<and>
   fst (Ref \<lparr>ping_err = Some (DriverError 1), connect_out = Inl (DriverError 2), store_err = None\<rparr> pool3 (snd fresh3))
     = Return (None, Some (DriverError 2)) \<and>
   fst (snd (Ref \<lparr>ping_err = Some (DriverError 1), connect_out = Inl (DriverError 2), store_err = None\<rparr> pool3 (snd fresh3)))
     = pool3 \<and>
   mem (snd (snd (Ref \<lparr>ping_err = Some (DriverError 1), connect_out = Inl (DriverError 2), store_err = None\<rparr> pool3 (snd fresh3))))
     = mem (snd fresh3)"
proof -
  have c: "clients pool3 = 0 # [1, 2]" by (simp add: pool3_def)
  have z: "ref (mem (snd fresh3) 0) = 0" using fresh3_refs by simp
  show ?thesis
    using Ref_reconnect_failure_no_mutation[OF c z,
        of "\<lparr>ping_err = Some (DriverError 1), connect_out = Inl (DriverError 2), store_err = None\<rparr>"
           "DriverError 1" "DriverError 2"] c z
    by simp
qed

text \<open>
  C3, as stated, fails: on a freshly built pool of three idle clients, \<open>Ref\<close> returns the
  client at address 0; releasing that client twice (the second \<open>UnRef\<close> has no matching
  \<open>Ref\<close>) leaves its use count at -1, and the heap puts it back at the root.
\<close>

theorem UnRef_unmatched_goes_negative:
  "fst fresh3 = Return (Some pool3, None) \<and>
   fst (Ref healthy pool3 (snd fresh3)) = Return (Some 0, None) \<and>
   clients (fst double_release3) = [0, 1, 2] \<and>
   sint (ref (mem (snd double_release3) 0)) = - 1"
  by (simp add: eval_simps double_release3_def)

text \<open>
  C3, amended. \<open>UnRef\<close> of a non-nil client lowers that client's use count by exactly one
  whatever the count was (no clamp: an idle client goes to -1) and changes no other
  client's count. In a call sequence on a pool built by \<open>ConnectWithTimeout\<close> in which
  every \<open>UnRef\<close> of a non-nil client is matched by an outstanding acquire of that client,
  after every prefix of fewer than \<open>2^63\<close> calls the use count of each client of the pool
  is its number of outstanding acquires, so it is never negative.
\<close>

theorem UnRef_decrements_and_matched_never_negative:
  "(pool_inv c w \<longrightarrow>
      ref (mem (snd (snd (UnRef (Some a) c w))) a) = ref (mem w a) - 1 \<and>
      (- (2 ^ 63) < sint (ref (mem w a)) \<longrightarrow>
         sint (ref (mem (snd (snd (UnRef (Some a) c w))) a)) = sint (ref (mem w a)) - 1) \<and>
      (\<forall>b. b \<noteq> a \<longrightarrow> ref (mem (snd (snd (UnRef (Some a) c w))) b) = ref (mem w b))) \<and>
   (ConnectWithTimeout url clientNum ct t outs w0 = (Return (Some c0, err), w1) \<and>
    matched no_borrows (pre @ post) c0 w1 \<and> run pre c0 w1 = (c', w') \<and>
    length pre < 2 ^ 63 \<and> x \<in> set (clients c') \<longrightarrow>
      sint (ref (mem w' x)) = int (outstanding no_borrows pre c0 w1 x) \<and>
      0 \<le> sint (ref (mem w' x)))"
proof (intro conjI impI allI)
  assume inv: "pool_inv c w"
  obtain r c1 w1' where U: "UnRef (Some a) c w = (r, c1, w1')"
    and refs: "\<forall>b. ref (mem w1' b) = (if Some a = Some b then ref (mem w b) - 1 else ref (mem w b))"
    using UnRef_props[OF inv, of "Some a"] by blast
  show d: "ref (mem (snd (snd (UnRef (Some a) c w))) a) = ref (mem w a) - 1"
    using U refs by simp
  show "sint (ref (mem (snd (snd (UnRef (Some a) c w))) a)) = sint (ref (mem w a)) - 1"
    if "- (2 ^ 63) < sint (ref (mem w a))"
    using d sint_dec[OF that] by simp
  show "ref (mem (snd (snd (UnRef (Some a) c w))) b) = ref (mem w b)" if "b \<noteq> a" for b
    using U refs that by auto
next
  assume h: "ConnectWithTimeout url clientNum ct t outs w0 = (Return (Some c0, err), w1) \<and>
    matched no_borrows (pre @ post) c0 w1 \<and> run pre c0 w1 = (c', w') \<and>
    length pre < 2 ^ 63 \<and> x \<in> set (clients c')"
  then have C: "ConnectWithTimeout url clientNum ct t outs w0 = (Return (Some c0, err), w1)"
    by simp
  have i0: "pool_inv c0 w1" and z: "\<forall>a \<in> set (clients c0). ref (mem w1 a) = 0"
    using ConnectWithTimeout_inv[OF C] by simp_all
  have q0: "\<forall>a \<in> set (clients c0). ref (mem w1 a) = of_nat (no_borrows a)"
    using z by (simp add: no_borrows_def)
  have m: "matched no_borrows pre c0 w1" using h matched_append by blast
  have r: "run pre c0 w1 = (c', w')" using h by simp
  from matched_run[OF i0 q0 m r] h
  have eq: "ref (mem w' x) = of_nat (outstanding no_borrows pre c0 w1 x)"
    and le: "outstanding no_borrows pre c0 w1 x \<le> no_borrows x + length pre"
    by simp_all
  have "outstanding no_borrows pre c0 w1 x < 2 ^ 63"
    using le h by (simp add: no_borrows_def)
  then show s: "sint (ref (mem w' x)) = int (outstanding no_borrows pre c0 w1 x)"
    unfolding eq by (rule sint_of_nat_small)
  then show "0 \<le> sint (ref (mem w' x))" by simp
qed

lemma fresh3_inv: "pool_inv pool3 (snd fresh3)"
  using ConnectWithTimeout_inv[OF fresh3_eq] by simp

lemma fresh3_world:
  "trace (snd fresh3) = [EvConnect opts3, EvConnect opts3, EvConnect opts3]"
  "counters (snd fresh3) = Map.empty"
  "map (\<lambda>a. mongo_Client (mem (snd fresh3) a)) [0, 1, 2] = [100, 101, 102]"
  by (simp_all add: eval_simps)

lemma healthy_fields: "ping_err healthy = None" "store_err healthy = None"
  by (simp_all add: healthy_def)

lemmas eval_simps2 = eval_simps busy3_def flaky_def index_ok_def heap_ok_def pool_inv_def keys_def
  parent_def

lemma busy3_inv: "pool_inv (fst busy3) (snd busy3)"
  by (simp add: eval_simps2)

lemma busy3_clients: "clients (fst busy3) = [0, 2, 1]"
  by (simp add: eval_simps2)

lemma busy3_refs: "map (\<lambda>a. ref (mem (snd busy3) a)) [0, 1, 2] = [0, 1, 1]"
  by (simp add: eval_simps2)

lemma prefix3_matched: "matched no_borrows (prefix3 @ [CallRef healthy]) pool3 (snd fresh3)"
  by (simp add: eval_simps prefix3_def credit_def debit_def no_borrows_def)

lemma prefix3_clients: "clients (fst (run prefix3 pool3 (snd fresh3))) = [2, 0, 1]"
  by (simp add: eval_simps prefix3_def)

lemma prefix3_outstanding: "map (outstanding no_borrows prefix3 pool3 (snd fresh3)) [0, 1, 2] = [0, 1, 0]"
  by (simp add: eval_simps prefix3_def credit_def debit_def no_borrows_def)

theorem UnRef_decrements_and_matched_never_negative_witness:
  "pool_inv pool3 (snd fresh3) \<and> ref (mem (snd fresh3) 0) = 0 \<and>
   sint (ref (mem (snd (snd (UnRef (Some 0) pool3 (snd fresh3)))) 0)) = - 1 \<and>
   ref (mem (snd (snd (UnRef (Some 0) pool3 (snd fresh3)))) 1) = 0 \<and>
   ConnectWithTimeout ''mongodb://localhost:27017'' 3 10 10 all_up empty_world = (Return (Some pool3, None), snd fresh3) \<and>
   matched no_borrows (prefix3 @ [CallRef healthy]) pool3 (snd fresh3) \<and>
   length prefix3 = 3 \<and>
   clients (fst (run prefix3 pool3 (snd fresh3))) = [2, 0, 1] \<and>
   outstanding no_borrows prefix3 pool3 (snd fresh3) 1 = 1 \<and>
   sint (ref (mem (snd (run prefix3 pool3 (snd fresh3))) 1)) = 1 \<and>
   outstanding no_borrows prefix3 pool3 (snd fresh3) 0 = 0 \<and>
   sint (ref (mem (snd (run prefix3 pool3 (snd fresh3))) 0)) = 0"
proof -
  have z: "ref (mem (snd fresh3) 0) = 0" "ref (mem (snd fresh3) 1) = 0"
    using fresh3_refs by simp_all
  have l: "length prefix3 = 3" by (simp add: prefix3_def)
  have o: "outstanding no_borrows prefix3 pool3 (snd fresh3) 1 = 1"
    "outstanding no_borrows prefix3 pool3 (snd fresh3) 0 = 0"
    using prefix3_outstanding by simp_all
  have r: "run prefix3 pool3 (snd fresh3) =
             (fst (run prefix3 pool3 (snd fresh3)), snd (run prefix3 pool3 (snd fresh3)))"
    by simp
  note A = UnRef_decrements_and_matched_never_negative[of pool3 "snd fresh3" 0
      "''mongodb://localhost:27017''" 3 10 10 all_up empty_world pool3 None "snd fresh3"
      prefix3 "[CallRef healthy]" "fst (run prefix3 pool3 (snd fresh3))"
      "snd (run prefix3 pool3 (snd fresh3))" 1]
  note B = UnRef_decrements_and_matched_never_negative[of pool3 "snd fresh3" 0
      "''mongodb://localhost:27017''" 3 10 10 all_up empty_world pool3 None "snd fresh3"
      prefix3 "[CallRef healthy]" "fst (run prefix3 pool3 (snd fresh3))"
      "snd (run prefix3 pool3 (snd fresh3))" 0]
  have a1: "sint (ref (mem (snd (snd (UnRef (Some 0) pool3 (snd fresh3)))) 0)) = - 1"
    using A fresh3_inv z by simp
  have a2: "ref (mem (snd (snd (UnRef (Some 0) pool3 (snd fresh3)))) 1) = 0"
    using A fresh3_inv z by simp
  have b1: "sint (ref (mem (snd (run prefix3 pool3 (snd fresh3))) 1)) = 1"
    using A fresh3_eq prefix3_matched r l prefix3_clients o by simp
  have b0: "sint (ref (mem (snd (run prefix3 pool3 (snd fresh3))) 0)) = 0"
    using B fresh3_eq prefix3_matched r l prefix3_clients o by simp
  show ?thesis
    using fresh3_inv z(1) a1 a2 fresh3_eq prefix3_matched l prefix3_clients o b1 b0 by simp
qed

text \<open>
  C5. When a connection attempt fails during construction (the attempts before it having
  succeeded, the failing one being within the pool size), \<open>ConnectWithTimeout\<close> returns
  that attempt's error and no pool.
\<close>

theorem ConnectWithTimeout_fails_without_pool:
  assumes "int k < (if clientNum \<le> 0 then 100 else clientNum)"
    and "outs k = Inl err" and "\<forall>j<k. \<not> isl (outs j)"
  shows "fst (ConnectWithTimeout url clientNum ct t outs w0) = Return (None, Some err)"
proof -
  define N where "N = (if clientNum \<le> 0 then 100 else clientNum)"
  define w1 where "w1 = (if clientNum \<le> 0 then emit (EvLogRelease 100) w0 else w0)"
  define opts where "opts = \<lparr>uri = url, connectTimeout = ct, timeout = t\<rparr>"
  have "fst (connect_loop outs opts 0 N [] w1) = Some err"
    by (rule connect_loop_fail[where k = k]) (use assms in \<open>auto simp: N_def\<close>)
  then obtain cs w2 where L: "connect_loop outs opts 0 N [] w1 = (Some err, cs, w2)"
    by (cases "connect_loop outs opts 0 N [] w1") auto
  have "ConnectWithTimeout url clientNum ct t outs w0 =
     (case connect_loop outs opts 0 N [] w1 of
          (Some err, cs, w1) \<Rightarrow> (Return (None, Some err), w1)
        | (None, cs, w1) \<Rightarrow>
            (case Init cs (mem w1) of
               (Panic, h, m) \<Rightarrow> (Panic, w1\<lparr>mem := m\<rparr>)
             | (Return _, h, m) \<Rightarrow>
                 (Return (Some \<lparr>clients = h, clientOpts = opts\<rparr>, None), w1\<lparr>mem := m\<rparr>)))"
    unfolding ConnectWithTimeout_def N_def w1_def opts_def Let_def by simp
  then show ?thesis using L by simp
qed

theorem ConnectWithTimeout_fails_without_pool_witness:
  "int 1 < (if (3::int) \<le> 0 then 100 else 3) \<and> flaky 1 = Inl (DriverError 7) \<and>
   flaky 0 = Inr 100 \<and>
   fst (ConnectWithTimeout ''mongodb://localhost:27017'' 3 10 10 flaky empty_world)
     = Return (None, Some (DriverError 7))"
proof -
  have a: "int 1 < (if (3::int) \<le> 0 then 100 else 3)" by simp
  have b: "flaky 1 = Inl (DriverError 7)" by (simp add: flaky_def)
  have c: "\<forall>j<1. \<not> isl (flaky j)" by (simp add: flaky_def)
  have d: "flaky 0 = Inr 100" by (simp add: flaky_def)
  show ?thesis
    using ConnectWithTimeout_fails_without_pool[OF a b c] a b d by simp
qed

text \<open>
  C6. In a pool built by \<open>ConnectWithTimeout\<close> and then driven by any sequence of \<open>Ref\<close>
  and \<open>UnRef\<close> calls, every client in the heap slice stores its own slot in its \<open>index\<close>
  field; and from any state in which that holds, \<open>Swap\<close>, \<open>heap.Init\<close> and \<open>heap.Fix\<close>
  lead to a state in which it holds.
\<close>

theorem index_field_is_slot:
  "(ConnectWithTimeout url clientNum ct t outs w0 = (Return (Some c0, err), w1) \<and>
    run calls c0 w1 = (c, w) \<and> i < length (clients c)
      \<longrightarrow> index (mem w (clients c ! i)) = int i) \<and>
   (index_ok h m \<longrightarrow>
      (Swap h m a b = Some (h1, m1) \<longrightarrow> index_ok h1 m1) \<and>
      index_ok (fst (snd (Init h m))) (snd (snd (Init h m))) \<and>
      index_ok (fst (snd (Fix h m k))) (snd (snd (Fix h m k))))"
proof (intro conjI impI)
  assume A: "ConnectWithTimeout url clientNum ct t outs w0 = (Return (Some c0, err), w1) \<and>
    run calls c0 w1 = (c, w) \<and> i < length (clients c)"
  then have "pool_inv c0 w1" using ConnectWithTimeout_inv by blast
  then have "pool_inv c w" using run_inv A by blast
  then show "index (mem w (clients c ! i)) = int i"
    using A by (simp add: pool_inv_def index_ok_iff)
next
  assume "index_ok h m" "Swap h m a b = Some (h1, m1)"
  then show "index_ok h1 m1" by (rule Swap_index_ok)
next
  assume "index_ok h m"
  from Init_props[OF this] show "index_ok (fst (snd (Init h m))) (snd (snd (Init h m)))" by auto
next
  assume "index_ok h m"
  from Fix_props[OF this, of k] show "index_ok (fst (snd (Fix h m k))) (snd (snd (Fix h m k)))"
    by auto
qed

theorem index_field_is_slot_witness:
  "ConnectWithTimeout ''mongodb://localhost:27017'' 3 10 10 all_up empty_world = (Return (Some pool3, None), snd fresh3) \<and>
   run calls3 pool3 (snd fresh3) = (fst busy3, snd busy3) \<and> 1 < length (clients (fst busy3)) \<and>
   clients (fst busy3) ! 1 = 2 \<and> index (mem (snd busy3) 2) = 1 \<and>
   index_ok [0, 2, 1] (mem (snd busy3)) \<and>
   Swap [0, 2, 1] (mem (snd busy3)) 0 2 = Some ([1, 2, 0], snd (the (Swap [0, 2, 1] (mem (snd busy3)) 0 2))) \<and>
   index_ok [1, 2, 0] (snd (the (Swap [0, 2, 1] (mem (snd busy3)) 0 2)))"
proof -
  have r: "run calls3 pool3 (snd fresh3) = (fst busy3, snd busy3)" by (simp add: busy3_def)
  have l: "1 < length (clients (fst busy3))" by (simp add: busy3_clients)
  have ok: "index_ok [0, 2, 1] (mem (snd busy3))"
    using busy3_inv by (simp add: pool_inv_def busy3_clients)
  have s: "Swap [0, 2, 1] (mem (snd busy3)) 0 2 = Some ([1, 2, 0], snd (the (Swap [0, 2, 1] (mem (snd busy3)) 0 2)))"
    by (simp add: Swap_def in_range_def Let_def)
  show ?thesis
    using index_field_is_slot[of "''mongodb://localhost:27017''" 3 10 10 all_up empty_world pool3 None
        "snd fresh3" calls3 "fst busy3" "snd busy3" 1 "[0, 2, 1]" "mem (snd busy3)" 0 2 "[1, 2, 0]"
        "snd (the (Swap [0, 2, 1] (mem (snd busy3)) 0 2))"]
      fresh3_eq r l ok s busy3_clients
    by simp
qed

lemma Ref_busy:
  assumes "clients c = s # rest" "ref (mem w s) \<noteq> 0"
  shows "Ref e c w =
           (case Fix (clients c) ((mem w)(s := (mem w s)\<lparr>ref := ref (mem w s) + 1\<rparr>)) 0 of
              (Panic, h, m) \<Rightarrow> (Panic, c\<lparr>clients := h\<rparr>, w\<lparr>mem := m\<rparr>)
            | (Return _, h, m) \<Rightarrow> (Return (Some s, None), c\<lparr>clients := h\<rparr>, w\<lparr>mem := m\<rparr>))"
  using assms by (simp add: Ref_def Let_def)

lemma Ref_trace:
  assumes "clients c = s # rest"
  shows "trace (snd (snd (Ref e c w))) = trace w @ Ref_events e c w s"
proof (cases "ref (mem w s) = 0 \<and> ping_err e \<noteq> None \<and> isl (connect_out e)")
  case True
  then obtain pe err where "ping_err e = Some pe" "connect_out e = Inl err"
    by (cases "connect_out e") auto
  from Ref_fail[OF assms _ this] True show ?thesis
    by (simp add: emit_def Ref_events_def)
next
  case False
  from Ref_go[OF assms False] obtain x where R: "Ref e c w =
             (case Fix (clients c) ((mem w)(s := x)) 0 of
                (Panic, h, m) \<Rightarrow> (Panic, c\<lparr>clients := h\<rparr>, w\<lparr>trace := trace w @ Ref_events e c w s, mem := m\<rparr>)
              | (Return _, h, m) \<Rightarrow> (Return (Some s, None), c\<lparr>clients := h\<rparr>, w\<lparr>trace := trace w @ Ref_events e c w s, mem := m\<rparr>))"
    by blast
  obtain r h m where F: "Fix (clients c) ((mem w)(s := x)) 0 = (r, h, m)"
    by (cases "Fix (clients c) ((mem w)(s := x)) 0") auto
  show ?thesis using R F by (cases r) simp_all
qed

text \<open>
  C4. On a well-formed pool, \<open>Ref\<close> pings the client at the root exactly when that client's
  use count is 0, and disconnects and reconnects only after a failed ping; with a use
  count other than 0 it makes no driver call at all and returns the client after
  \<open>s.ref++\<close> and \<open>heap.Fix\<close> at slot 0, nothing else in the world having changed.
\<close>

theorem Ref_probes_only_idle_root:
  assumes "pool_inv c w" and "clients c = s # rest"
  shows "trace (snd (snd (Ref e c w))) =
           trace w @
           (if ref (mem w s) = 0
            then EvPing (mongo_Client (mem w s)) #
                 (if ping_err e = None then []
                  else [EvDisconnect (mongo_Client (mem w s)), EvConnect (clientOpts c)])
            else []) \<and>
         (ref (mem w s) \<noteq> 0 \<longrightarrow>
            (\<exists>h m. Fix (clients c) ((mem w)(s := (mem w s)\<lparr>ref := ref (mem w s) + 1\<rparr>)) 0 = (Return (), h, m) \<and>
                   Ref e c w = (Return (Some s, None), c\<lparr>clients := h\<rparr>, w\<lparr>mem := m\<rparr>))) \<and>
         (ref (mem w s) = 0 \<and> ping_err e \<noteq> None \<and> connect_out e = Inr nc \<longrightarrow>
            fst (Ref e c w) = Return (Some s, None) \<and>
            mongo_Client (mem (snd (snd (Ref e c w))) s) = nc \<and>
            ref (mem (snd (snd (Ref e c w))) s) = 1)"
proof (intro conjI impI)
  show "trace (snd (snd (Ref e c w))) =
           trace w @
           (if ref (mem w s) = 0
            then EvPing (mongo_Client (mem w s)) #
                 (if ping_err e = None then []
                  else [EvDisconnect (mongo_Client (mem w s)), EvConnect (clientOpts c)])
            else [])"
    using Ref_trace[OF assms(2), of e w] by (simp add: Ref_events_def)
next
  assume busy: "ref (mem w s) \<noteq> 0"
  define x where "x = (mem w s)\<lparr>ref := ref (mem w s) + 1\<rparr>"
  have iok: "index_ok (clients c) (mem w)" and hok: "heap_ok (keys (clients c) (mem w))"
    using assms(1) by (auto simp: pool_inv_def)
  have ix: "index x = index (mem w s)" by (simp add: x_def)
  have s0: "index (mem w s) = 0" using iok assms(2) by (auto simp: index_ok_iff)
  obtain r h m where F: "Fix (clients c) ((mem w)(s := x)) (index x) = (r, h, m)"
    and r: "s \<in> set (clients c) \<longrightarrow> r = Return ()"
    using Fix_after_update[OF iok hok ix] by blast
  have F0: "Fix (clients c) ((mem w)(s := x)) 0 = (Return (), h, m)"
    using F r assms(2) ix s0 by simp
  then show "\<exists>h m. Fix (clients c) ((mem w)(s := (mem w s)\<lparr>ref := ref (mem w s) + 1\<rparr>)) 0 = (Return (), h, m) \<and>
                   Ref e c w = (Return (Some s, None), c\<lparr>clients := h\<rparr>, w\<lparr>mem := m\<rparr>)"
    using Ref_busy[OF assms(2) busy, of e] by (simp add: x_def)
next
  assume h: "ref (mem w s) = 0 \<and> ping_err e \<noteq> None \<and> connect_out e = Inr nc"
  then have ok: "\<not> (ref (mem w s) = 0 \<and> ping_err e \<noteq> None \<and> isl (connect_out e))" by simp
  from Ref_ok[OF assms ok] obtain c' w' where R: "Ref e c w = (Return (Some s, None), c', w')"
    and r: "\<forall>a. ref (mem w' a) = (if a = s then ref (mem w s) + 1 else ref (mem w a))"
    and m: "mongo_Client (mem w' s) = (if ref (mem w s) = 0 \<and> ping_err e \<noteq> None
                             then projr (connect_out e) else mongo_Client (mem w s))"
    by blast
  show "fst (Ref e c w) = Return (Some s, None)" using R by simp
  show "mongo_Client (mem (snd (snd (Ref e c w))) s) = nc" using R m h by simp
  show "ref (mem (snd (snd (Ref e c w))) s) = 1" using R r h by simp
qed

lemma all_busy3_inv: "pool_inv (fst all_busy3) (snd all_busy3)"
  by (simp add: eval_simps2 all_busy3_def)

lemma all_busy3_clients: "clients (fst all_busy3) = [2, 0, 1]"
  by (simp add: eval_simps2 all_busy3_def)

lemma all_busy3_refs: "map (\<lambda>a. ref (mem (snd all_busy3) a)) [0, 1, 2] = [1, 1, 1]"
  by (simp add: eval_simps2 all_busy3_def)

lemma all_busy3_trace: "trace (snd all_busy3) = [EvConnect opts3, EvConnect opts3, EvConnect opts3, EvPing 100, EvPing 101, EvPing 102]"
  by (simp add: eval_simps2 all_busy3_def)

theorem Ref_probes_only_idle_root_witness:
  "pool_inv (fst all_busy3) (snd all_busy3) \<and> clients (fst all_busy3) = 2 # [0, 1] \<and>
   ref (mem (snd all_busy3) 2) \<noteq> 0 \<and>
   trace (snd (snd (Ref healthy (fst all_busy3) (snd all_busy3)))) = trace (snd all_busy3) \<and>
   fst (Ref healthy (fst all_busy3) (snd all_busy3)) = Return (Some 2, None) \<and>
   pool_inv pool3 (snd fresh3) \<and> clients pool3 = 0 # [1, 2] \<and> ref (mem (snd fresh3) 0) = 0 \<and>
   trace (snd (snd (Ref \<lparr>ping_err = Some (DriverError 1), connect_out = Inr 500, store_err = None\<rparr>
                     pool3 (snd fresh3)))) =
     trace (snd fresh3) @ [EvPing 100, EvDisconnect 100, EvConnect opts3] \<and>
   mongo_Client (mem (snd (snd (Ref \<lparr>ping_err = Some (DriverError 1), connect_out = Inr 500, store_err = None\<rparr>
                     pool3 (snd fresh3)))) 0) = 500"
proof -
  have c: "clients (fst all_busy3) = 2 # [0, 1]" by (simp add: all_busy3_clients)
  have b: "ref (mem (snd all_busy3) 2) \<noteq> 0" using all_busy3_refs by simp
  note T = Ref_probes_only_idle_root[OF all_busy3_inv c, of healthy]
  have t: "trace (snd (snd (Ref healthy (fst all_busy3) (snd all_busy3)))) = trace (snd all_busy3)"
    using T b by simp
  have "\<exists>h m. Ref healthy (fst all_busy3) (snd all_busy3) =
           (Return (Some 2, None), (fst all_busy3)\<lparr>clients := h\<rparr>, (snd all_busy3)\<lparr>mem := m\<rparr>)"
    using T b by blast
  then have r: "fst (Ref healthy (fst all_busy3) (snd all_busy3)) = Return (Some 2, None)"
    by auto
  have c3: "clients pool3 = 0 # [1, 2]" by (simp add: pool3_def)
  have z: "ref (mem (snd fresh3) 0) = 0" using fresh3_refs by simp
  have cn: "mongo_Client (mem (snd fresh3) 0) = 100" using fresh3_world(3) by simp
  note T3 = Ref_probes_only_idle_root[OF fresh3_inv c3,
      of "\<lparr>ping_err = Some (DriverError 1), connect_out = Inr 500, store_err = None\<rparr>" 500]
  have t3: "trace (snd (snd (Ref \<lparr>ping_err = Some (DriverError 1), connect_out = Inr 500, store_err = None\<rparr>
                     pool3 (snd fresh3)))) =
     trace (snd fresh3) @ [EvPing 100, EvDisconnect 100, EvConnect opts3]"
    using T3 z cn by (simp add: pool3_def)
  have m3: "mongo_Client (mem (snd (snd (Ref \<lparr>ping_err = Some (DriverError 1), connect_out = Inr 500, store_err = None\<rparr>
                     pool3 (snd fresh3)))) 0) = 500"
    using T3 z by simp
  show ?thesis using all_busy3_inv c b t r fresh3_inv c3 z t3 m3 by simp
qed

lemma Close_loop_trace:
  "trace (Close_loop ss w) = trace w @
     concat (map (\<lambda>s. EvDisconnect (mongo_Client (mem w s)) #
                       (if ref (mem w s) \<noteq> 0 then [EvLogError (ref (mem w s))] else [])) ss) \<and>
   mem (Close_loop ss w) = mem w \<and> counters (Close_loop ss w) = counters w"
proof (induction ss arbitrary: w)
  case Nil
  then show ?case by simp
next
  case (Cons s ss)
  define w2 where "w2 = (if ref (mem w s) \<noteq> 0
      then emit (EvLogError (ref (mem w s))) (emit (EvDisconnect (mongo_Client (mem w s))) w)
      else emit (EvDisconnect (mongo_Client (mem w s))) w)"
  have C: "Close_loop (s # ss) w = Close_loop ss w2"
    by (simp add: w2_def Let_def emit_def)
  have m: "mem w2 = mem w" "counters w2 = counters w"
    and t: "trace w2 = trace w @ EvDisconnect (mongo_Client (mem w s)) #
                       (if ref (mem w s) \<noteq> 0 then [EvLogError (ref (mem w s))] else [])"
    by (simp_all add: w2_def emit_def)
  show ?case unfolding C using Cons.IH[of w2] by (simp add: m t cong: if_cong)
qed

text \<open>
  C9. \<open>Close\<close> calls \<open>Disconnect\<close> once on the connection of every client of the pool, in
  slice order; a client whose use count is not 0 adds one error log line after its
  disconnect and nothing else: the disconnects made are the same whatever the counts.
\<close>

theorem Close_disconnects_every_client:
  "trace (Close c w) = trace w @
     concat (map (\<lambda>s. EvDisconnect (mongo_Client (mem w s)) #
                       (if ref (mem w s) = 0 then [] else [EvLogError (ref (mem w s))])) (clients c)) \<and>
   filter is_Disconnect (trace (Close c w)) =
     filter is_Disconnect (trace w) @ map (\<lambda>s. EvDisconnect (mongo_Client (mem w s))) (clients c) \<and>
   mem (Close c w) = mem w"
proof -
  have t: "trace (Close c w) = trace w @
     concat (map (\<lambda>s. EvDisconnect (mongo_Client (mem w s)) #
                       (if ref (mem w s) \<noteq> 0 then [EvLogError (ref (mem w s))] else [])) (clients c))"
    and m: "mem (Close c w) = mem w"
    using Close_loop_trace[of "clients c" w] by (simp_all add: Close_def)
  have f: "filter is_Disconnect (concat (map (\<lambda>s. EvDisconnect (mongo_Client (mem w s)) #
                       (if ref (mem w s) \<noteq> 0 then [EvLogError (ref (mem w s))] else [])) ss))
           = map (\<lambda>s. EvDisconnect (mongo_Client (mem w s))) ss" for ss
    by (induction ss) auto
  have e: "(\<lambda>s. EvDisconnect (mongo_Client (mem w s)) #
                       (if ref (mem w s) \<noteq> 0 then [EvLogError (ref (mem w s))] else []))
         = (\<lambda>s. EvDisconnect (mongo_Client (mem w s)) #
                       (if ref (mem w s) = 0 then [] else [EvLogError (ref (mem w s))]))"
    by auto
  show ?thesis using t m f[of "clients c"] by (simp add: e)
qed

lemma requests_append [simp]: "requests (xs @ ys) = requests xs @ requests ys"
  by (simp add: requests_def)

lemma requests_Ref_events [simp]: "requests (Ref_events e c w s) = []"
  by (simp add: requests_def Ref_events_def)

text \<open>The borrow at the start of a derived operation and the deferred release at its end.\<close>

lemma borrow:
  assumes inv: "pool_inv c w" and c: "clients c = s # rest"
    and ok: "\<not> (ref (mem w s) = 0 \<and> ping_err e \<noteq> None \<and> isl (connect_out e))"
  shows "\<exists>c1 w1. Ref e c w = (Return (Some s, None), c1, w1) \<and> pool_inv c1 w1 \<and>
           s \<in> set (clients c1) \<and> requests (trace w1) = requests (trace w) \<and>
           counters w1 = counters w \<and> mongo_Client (mem w1 s) = borrowed_conn e w s \<and>
           (\<forall>a. ref (mem w1 a) = (if a = s then ref (mem w s) + 1 else ref (mem w a)))"
proof -
  from Ref_ok[OF inv c ok] obtain c1 w1 where R: "Ref e c w = (Return (Some s, None), c1, w1)"
    and i1: "pool_inv c1 w1" and s1: "set (clients c1) = set (clients c)"
    and t1: "trace w1 = trace w @ Ref_events e c w s" and n1: "counters w1 = counters w"
    and r1: "\<forall>a. ref (mem w1 a) = (if a = s then ref (mem w s) + 1 else ref (mem w a))"
    and m1: "mongo_Client (mem w1 s) = (if ref (mem w s) = 0 \<and> ping_err e \<noteq> None
                             then projr (connect_out e) else mongo_Client (mem w s))"
    by blast
  have a: "s \<in> set (clients c1)" using s1 c by simp
  have b: "requests (trace w1) = requests (trace w)" using t1 by simp
  have d: "mongo_Client (mem w1 s) = borrowed_conn e w s" using m1 by (simp add: borrowed_conn_def)
  show ?thesis
    by (intro exI[of _ c1] exI[of _ w1] conjI) (fact R i1 a b n1 d r1)+
qed

lemma release:
  assumes inv: "pool_inv c1 w1" and s: "s \<in> set (clients c1)" and m: "mem w3 = mem w1"
  shows "\<exists>c' w'. UnRef (Some s) c1 w3 = (Return (), c', w') \<and> pool_inv c' w' \<and>
           clients c' \<noteq> [] \<and> trace w' = trace w3 \<and> counters w' = counters w3 \<and>
           (\<forall>a. ref (mem w' a) = (if a = s then ref (mem w1 a) - 1 else ref (mem w1 a)))"
proof -
  have i3: "pool_inv c1 w3" using inv m by (simp add: pool_inv_def)
  from UnRef_props[OF i3, of "Some s"] obtain r c' w' where U: "UnRef (Some s) c1 w3 = (r, c', w')"
    and i': "pool_inv c' w'" and s': "set (clients c') = set (clients c1)"
    and t': "trace w' = trace w3" and n': "counters w' = counters w3"
    and r': "\<forall>a. ref (mem w' a) = (if Some s = Some a then ref (mem w3 a) - 1 else ref (mem w3 a))"
    and ret: "(case Some s of None \<Rightarrow> True | Some a \<Rightarrow> a \<in> set (clients c1)) \<longrightarrow> r = Return ()"
    by blast
  have ne: "clients c' \<noteq> []" using s s' by (cases "clients c'") auto
  have rr: "r = Return ()" using ret s by simp
  have U': "UnRef (Some s) c1 w3 = (Return (), c', w')" using U rr by simp
  have rf: "\<forall>a. ref (mem w' a) = (if a = s then ref (mem w1 a) - 1 else ref (mem w1 a))"
  proof
    fix a
    show "ref (mem w' a) = (if a = s then ref (mem w1 a) - 1 else ref (mem w1 a))"
      using r'[rule_format, of a] m by (cases "a = s") simp_all
  qed
  show ?thesis
    by (intro exI[of _ c'] exI[of _ w'] conjI) (fact U' i' ne t' n' rf)+
qed

lemma EnsureCounter_props:
  assumes inv: "pool_inv c w" and c: "clients c = s # rest"
    and ok: "\<not> (ref (mem w s) = 0 \<and> ping_err e \<noteq> None \<and> isl (connect_out e))"
  shows "\<exists>c' w'. EnsureCounter e db collection id' c w =
             (Return (case store_err e of
                        None \<Rightarrow> None
                      | Some x \<Rightarrow> if x = DuplicateKeyError then None else Some x), c', w') \<and>
           pool_inv c' w' \<and> clients c' \<noteq> [] \<and>
           requests (trace w') = requests (trace w) @
             [EvInsertOne (borrowed_conn e w s) db collection [''_id'' \<mapsto> BString id', ''seq'' \<mapsto> BInt 0]] \<and>
           counters w' = (if store_err e = None \<and> counters w (db, collection, id') = None
                          then (counters w)((db, collection, id') \<mapsto> 0) else counters w)"
proof -
  from borrow[OF inv c ok] obtain c1 w1 where R: "Ref e c w = (Return (Some s, None), c1, w1)"
    and i1: "pool_inv c1 w1" and s1: "s \<in> set (clients c1)"
    and t1: "requests (trace w1) = requests (trace w)" and n1: "counters w1 = counters w"
    and m1: "mongo_Client (mem w1 s) = borrowed_conn e w s" by blast
  define doc where "doc = [''_id'' \<mapsto> BString id', ''seq'' \<mapsto> BInt 0]"
  define w2 where "w2 = emit (EvInsertOne (mongo_Client (mem w1 s)) db collection doc) w1"
  obtain err2 st where r: "store_InsertOne (store_err e) (db, collection, id') 0 (counters w2) = (err2, st)"
    by force
  define w3 where "w3 = w2\<lparr>counters := st\<rparr>"
  have m3: "mem w3 = mem w1" by (simp add: w3_def w2_def emit_def)
  from release[OF i1 s1 m3] obtain c' w' where U: "UnRef (Some s) c1 w3 = (Return (), c', w')"
    and i': "pool_inv c' w'" and ne: "clients c' \<noteq> []"
    and t': "trace w' = trace w3" and n': "counters w' = counters w3" by blast
  have E: "EnsureCounter e db collection id' c w =
             (Return (if IsDuplicateKeyError err2 then None else err2), c', w')"
    unfolding EnsureCounter_def
    by (simp add: R Let_def doc_def[symmetric] w2_def[symmetric] r w3_def[symmetric] U)
  have res: "(if IsDuplicateKeyError err2 then None else err2) =
             (case store_err e of None \<Rightarrow> None
              | Some x \<Rightarrow> if x = DuplicateKeyError then None else Some x)"
    using r by (auto simp: store_InsertOne_def IsDuplicateKeyError_def split: option.splits if_splits)
  have cnt: "counters w3 = (if store_err e = None \<and> counters w (db, collection, id') = None
                          then (counters w)((db, collection, id') \<mapsto> 0) else counters w)"
    using r by (auto simp: w3_def store_InsertOne_def w2_def emit_def n1 split: option.splits if_splits)
  have tr: "requests (trace w3) = requests (trace w) @
             [EvInsertOne (borrowed_conn e w s) db collection doc]"
    using t1 by (simp add: w3_def w2_def emit_def m1 requests_def)
  show ?thesis using E res cnt tr i' ne t' n' by (simp add: doc_def)
qed

lemma NextSeq_props:
  assumes inv: "pool_inv c w" and c: "clients c = s # rest"
    and ok: "\<not> (ref (mem w s) = 0 \<and> ping_err e \<noteq> None \<and> isl (connect_out e))"
  shows "\<exists>c' w'. NextSeq e db collection id' c w =
             (Return (case store_err e of
                        Some x \<Rightarrow> (0, Some x)
                      | None \<Rightarrow> (case counters w (db, collection, id') of
                                   None \<Rightarrow> (0, Some ErrNoDocuments)
                                 | Some n \<Rightarrow> (n + 1, None))), c', w') \<and>
           pool_inv c' w' \<and> clients c' \<noteq> [] \<and>
           requests (trace w') = requests (trace w) @
             [EvFindOneAndUpdate (borrowed_conn e w s) db collection [''_id'' \<mapsto> BString id']
                [''$inc'' \<mapsto> BDoc [''seq'' \<mapsto> BInt 1]] After] \<and>
           counters w' = (case store_err e of
                            Some x \<Rightarrow> counters w
                          | None \<Rightarrow> (case counters w (db, collection, id') of
                                       None \<Rightarrow> counters w
                                     | Some n \<Rightarrow> (counters w)((db, collection, id') \<mapsto> n + 1)))"
proof -
  from borrow[OF inv c ok] obtain c1 w1 where R: "Ref e c w = (Return (Some s, None), c1, w1)"
    and i1: "pool_inv c1 w1" and s1: "s \<in> set (clients c1)"
    and t1: "requests (trace w1) = requests (trace w)" and n1: "counters w1 = counters w"
    and m1: "mongo_Client (mem w1 s) = borrowed_conn e w s" by blast
  define filter' where "filter' = [''_id'' \<mapsto> BString id']"
  define update where "update = [''$inc'' \<mapsto> BDoc [''seq'' \<mapsto> BInt 1]]"
  define w2 where "w2 = emit (EvFindOneAndUpdate (mongo_Client (mem w1 s)) db collection filter' update After) w1"
  obtain decoded err2 st where r: "store_FindOneAndUpdate (store_err e) (db, collection, id') 1 (counters w2) = ((decoded, err2), st)"
    by (metis surj_pair)
  define w3 where "w3 = w2\<lparr>counters := st\<rparr>"
  have m3: "mem w3 = mem w1" by (simp add: w3_def w2_def emit_def)
  from release[OF i1 s1 m3] obtain c' w' where U: "UnRef (Some s) c1 w3 = (Return (), c', w')"
    and i': "pool_inv c' w'" and ne: "clients c' \<noteq> []"
    and t': "trace w' = trace w3" and n': "counters w' = counters w3" by blast
  have E: "NextSeq e db collection id' c w =
             (Return (case decoded of None \<Rightarrow> 0 | Some v \<Rightarrow> v, err2), c', w')"
    unfolding NextSeq_def
    by (simp add: R Let_def filter'_def[symmetric] update_def[symmetric] w2_def[symmetric] r
        w3_def[symmetric] U)
  have c2: "counters w2 = counters w" by (simp add: w2_def emit_def n1)
  have rc: "(case decoded of None \<Rightarrow> 0 | Some v \<Rightarrow> v, err2) =
             (case store_err e of
                        Some x \<Rightarrow> (0, Some x)
                      | None \<Rightarrow> (case counters w (db, collection, id') of
                                   None \<Rightarrow> (0, Some ErrNoDocuments)
                                 | Some n \<Rightarrow> (n + 1, None))) \<and>
            st = (case store_err e of
                            Some x \<Rightarrow> counters w
                          | None \<Rightarrow> (case counters w (db, collection, id') of
                                       None \<Rightarrow> counters w
                                     | Some n \<Rightarrow> (counters w)((db, collection, id') \<mapsto> n + 1)))"
  proof (cases "store_err e")
    case (Some x)
    then have "decoded = None \<and> err2 = Some x \<and> st = counters w"
      using r c2 by (auto simp: store_FindOneAndUpdate_def)
    then show ?thesis using Some by simp
  next
    case None
    show ?thesis
    proof (cases "counters w (db, collection, id')")
      case N2: None
      then have "decoded = None \<and> err2 = Some ErrNoDocuments \<and> st = counters w"
        using r c2 None by (auto simp: store_FindOneAndUpdate_def)
      then show ?thesis using None N2 by simp
    next
      case (Some n)
      then have "decoded = Some (n + 1) \<and> err2 = None \<and>
                 st = (counters w)((db, collection, id') \<mapsto> n + 1)"
        using r c2 None by (auto simp: store_FindOneAndUpdate_def)
      then show ?thesis using None Some by simp
    qed
  qed
  then have res: "(case decoded of None \<Rightarrow> 0 | Some v \<Rightarrow> v, err2) =
             (case store_err e of
                        Some x \<Rightarrow> (0, Some x)
                      | None \<Rightarrow> (case counters w (db, collection, id') of
                                   None \<Rightarrow> (0, Some ErrNoDocuments)
                                 | Some n \<Rightarrow> (n + 1, None)))"
    and cnt: "counters w3 = (case store_err e of
                            Some x \<Rightarrow> counters w
                          | None \<Rightarrow> (case counters w (db, collection, id') of
                                       None \<Rightarrow> counters w
                                     | Some n \<Rightarrow> (counters w)((db, collection, id') \<mapsto> n + 1)))"
    by (simp_all add: w3_def)
  have tr: "requests (trace w3) = requests (trace w) @
             [EvFindOneAndUpdate (borrowed_conn e w s) db collection filter' update After]"
    using t1 by (simp add: w3_def w2_def emit_def m1 requests_def)
  have E': "NextSeq e db collection id' c w =
             (Return (case store_err e of
                        Some x \<Rightarrow> (0, Some x)
                      | None \<Rightarrow> (case counters w (db, collection, id') of
                                   None \<Rightarrow> (0, Some ErrNoDocuments)
                                 | Some n \<Rightarrow> (n + 1, None))), c', w')"
    using E res by simp
  have tr': "requests (trace w') = requests (trace w) @
             [EvFindOneAndUpdate (borrowed_conn e w s) db collection [''_id'' \<mapsto> BString id']
                [''$inc'' \<mapsto> BDoc [''seq'' \<mapsto> BInt 1]] After]"
    using tr t' by (simp add: filter'_def update_def)
  have cnt': "counters w' = (case store_err e of
                            Some x \<Rightarrow> counters w
                          | None \<Rightarrow> (case counters w (db, collection, id') of
                                       None \<Rightarrow> counters w
                                     | Some n \<Rightarrow> (counters w)((db, collection, id') \<mapsto> n + 1)))"
    using cnt n' by simp
  show ?thesis
    by (intro exI[of _ c'] exI[of _ w'] conjI) (fact E' i' ne tr' cnt')+
qed

lemma keys_loop_eq:
  assumes "i + length ks \<le> length d"
  shows "keys_loop i ks d = take i d @ map (\<lambda>k. (k, BInt 1)) ks @ drop (i + length ks) d"
  using assms
proof (induction ks arbitrary: i d)
  case Nil
  then show ?case by simp
next
  case (Cons k ks)
  have il: "i < length d" using Cons.prems by simp
  have "keys_loop i (k # ks) d = keys_loop (i + 1) ks (d[i := (k, BInt 1)])" by simp
  also have "\<dots> = take (i + 1) (d[i := (k, BInt 1)]) @ map (\<lambda>k. (k, BInt 1)) ks @
                    drop (i + 1 + length ks) (d[i := (k, BInt 1)])"
    by (rule Cons.IH) (use Cons.prems in simp)
  also have "take (i + 1) (d[i := (k, BInt 1)]) = take i d @ [(k, BInt 1)]"
    using il by (simp add: take_Suc_conv_app_nth)
  also have "drop (i + 1 + length ks) (d[i := (k, BInt 1)]) = drop (i + length (k # ks)) d"
    by simp
  finally show ?case by simp
qed

lemma keysDoc_eq:
  "keys_loop 0 key (replicate (length key) ([], BNull)) = map (\<lambda>k. (k, BInt 1)) key"
  using keys_loop_eq[of 0 key "replicate (length key) ([], BNull)"] by simp

lemma ensureIndex_props:
  assumes inv: "pool_inv c w" and c: "clients c = s # rest"
    and ok: "\<not> (ref (mem w s) = 0 \<and> ping_err e \<noteq> None \<and> isl (connect_out e))"
  shows "\<exists>c' w'. ensureIndex e db collection key unique c w = (Return (store_err e), c', w') \<and>
           pool_inv c' w' \<and> clients c' \<noteq> [] \<and>
           requests (trace w') = requests (trace w) @
             [EvCreateOne (borrowed_conn e w s) db collection
                \<lparr>Keys = map (\<lambda>k. (k, BInt 1)) key,
                 Options = \<lparr>Unique = Some unique, Sparse = Some True\<rparr>\<rparr>]"
proof -
  from borrow[OF inv c ok] obtain c1 w1 where R: "Ref e c w = (Return (Some s, None), c1, w1)"
    and i1: "pool_inv c1 w1" and s1: "s \<in> set (clients c1)"
    and t1: "requests (trace w1) = requests (trace w)"
    and m1: "mongo_Client (mem w1 s) = borrowed_conn e w s" by blast
  define im where "im = \<lparr>Keys = map (\<lambda>k. (k, BInt 1)) key,
                 Options = \<lparr>Unique = Some unique, Sparse = Some True\<rparr>\<rparr>"
  define w2 where "w2 = emit (EvCreateOne (mongo_Client (mem w1 s)) db collection im) w1"
  have m2: "mem w2 = mem w1" by (simp add: w2_def emit_def)
  from release[OF i1 s1 m2] obtain c' w' where U: "UnRef (Some s) c1 w2 = (Return (), c', w')"
    and i': "pool_inv c' w'" and ne: "clients c' \<noteq> []"
    and t': "trace w' = trace w2" by blast
  have E: "ensureIndex e db collection key unique c w = (Return (store_err e), c', w')"
    unfolding ensureIndex_def
    by (simp add: R Let_def keysDoc_eq im_def[symmetric] w2_def[symmetric] U)
  have tr: "requests (trace w') = requests (trace w) @
             [EvCreateOne (borrowed_conn e w s) db collection im]"
    using t1 t' by (simp add: w2_def emit_def m1 requests_def)
  show ?thesis
    by (intro exI[of _ c'] exI[of _ w'] conjI) (fact E i' ne tr[unfolded im_def])+
qed

text \<open>
  C7. Once a client is borrowed, \<open>EnsureCounter\<close> makes one \<open>InsertOne\<close> request for the
  record \<open>{_id: id, seq: 0}\<close> in the named database and collection. It returns \<open>nil\<close>
  when the insert succeeds and when it fails with a duplicate-key error, and returns any
  other insert error as it is. A second call for the same identity, with the store
  reachable, returns \<open>nil\<close> too and leaves the stored record as it was.
\<close>

theorem EnsureCounter_duplicate_key_is_success:
  assumes "pool_inv c w" and "clients c = s # rest"
    and "\<not> (ref (mem w s) = 0 \<and> ping_err e \<noteq> None \<and> isl (connect_out e))"
  shows "\<exists>c' w'. EnsureCounter e db collection id' c w =
             (Return (case store_err e of
                        None \<Rightarrow> None
                      | Some x \<Rightarrow> if x = DuplicateKeyError then None else Some x), c', w') \<and>
           requests (trace w') = requests (trace w) @
             [EvInsertOne (borrowed_conn e w s) db collection [''_id'' \<mapsto> BString id', ''seq'' \<mapsto> BInt 0]] \<and>
           counters w' = (if store_err e = None \<and> counters w (db, collection, id') = None
                          then (counters w)((db, collection, id') \<mapsto> 0) else counters w) \<and>
           (ping_err e2 = None \<and> store_err e = None \<and> store_err e2 = None \<longrightarrow>
              fst (EnsureCounter e2 db collection id' c' w') = Return None \<and>
              counters (snd (snd (EnsureCounter e2 db collection id' c' w'))) = counters w')"
proof -
  from EnsureCounter_props[OF assms, of db collection id'] obtain c' w' where
    E: "EnsureCounter e db collection id' c w =
             (Return (case store_err e of
                        None \<Rightarrow> None
                      | Some x \<Rightarrow> if x = DuplicateKeyError then None else Some x), c', w')"
    and i': "pool_inv c' w'" and ne: "clients c' \<noteq> []"
    and tr: "requests (trace w') = requests (trace w) @
             [EvInsertOne (borrowed_conn e w s) db collection [''_id'' \<mapsto> BString id', ''seq'' \<mapsto> BInt 0]]"
    and cnt: "counters w' = (if store_err e = None \<and> counters w (db, collection, id') = None
                          then (counters w)((db, collection, id') \<mapsto> 0) else counters w)"
    by blast
  have second: "fst (EnsureCounter e2 db collection id' c' w') = Return None \<and>
              counters (snd (snd (EnsureCounter e2 db collection id' c' w'))) = counters w'"
    if h: "ping_err e2 = None \<and> store_err e = None \<and> store_err e2 = None"
  proof -
    obtain s' rest' where c': "clients c' = s' # rest'" using ne by (cases "clients c'") auto
    have ok': "\<not> (ref (mem w' s') = 0 \<and> ping_err e2 \<noteq> None \<and> isl (connect_out e2))"
      using h by simp
    have present: "counters w' (db, collection, id') \<noteq> None"
      using cnt h by (cases "counters w (db, collection, id')") auto
    from EnsureCounter_props[OF i' c' ok', of db collection id'] obtain c2 w2 where
      E2: "EnsureCounter e2 db collection id' c' w' =
             (Return (case store_err e2 of
                        None \<Rightarrow> None
                      | Some x \<Rightarrow> if x = DuplicateKeyError then None else Some x), c2, w2)"
      and cnt2: "counters w2 = (if store_err e2 = None \<and> counters w' (db, collection, id') = None
                          then (counters w')((db, collection, id') \<mapsto> 0) else counters w')"
      by blast
    show ?thesis using E2 cnt2 present h by simp
  qed
  show ?thesis
    by (intro exI[of _ c'] exI[of _ w'] conjI impI) (use E tr cnt second in auto)
qed

theorem EnsureCounter_duplicate_key_is_success_witness:
  "pool_inv pool3 (snd fresh3) \<and> clients pool3 = 0 # [1, 2] \<and> ping_err healthy = None \<and>
   store_err healthy = None \<and>
   (\<exists>c' w'. EnsureCounter healthy ''test'' ''counters'' ''test'' pool3 (snd fresh3) = (Return None, c', w') \<and>
      requests (trace w') =
        [EvInsertOne 100 ''test'' ''counters'' [''_id'' \<mapsto> BString ''test'', ''seq'' \<mapsto> BInt 0]] \<and>
      counters w' (''test'', ''counters'', ''test'') = Some 0 \<and>
      fst (EnsureCounter healthy ''test'' ''counters'' ''test'' c' w') = Return None \<and>
      counters (snd (snd (EnsureCounter healthy ''test'' ''counters'' ''test'' c' w'))) = counters w')"
proof -
  have c: "clients pool3 = 0 # [1, 2]" by (simp add: pool3_def)
  have ok: "\<not> (ref (mem (snd fresh3) 0) = 0 \<and> ping_err healthy \<noteq> None \<and> isl (connect_out healthy))"
    by (simp add: healthy_fields)
  have b: "borrowed_conn healthy (snd fresh3) 0 = 100"
    using fresh3_world(3) by (simp add: borrowed_conn_def healthy_fields)
  from EnsureCounter_duplicate_key_is_success[OF fresh3_inv c ok,
      of "''test''" "''counters''" "''test''" healthy]
  obtain c' w' where
    E: "EnsureCounter healthy ''test'' ''counters'' ''test'' pool3 (snd fresh3) = (Return None, c', w')"
    and tr: "requests (trace w') =
        [EvInsertOne 100 ''test'' ''counters'' [''_id'' \<mapsto> BString ''test'', ''seq'' \<mapsto> BInt 0]]"
    and cnt: "counters w' (''test'', ''counters'', ''test'') = Some 0"
    and two: "fst (EnsureCounter healthy ''test'' ''counters'' ''test'' c' w') = Return None"
      "counters (snd (snd (EnsureCounter healthy ''test'' ''counters'' ''test'' c' w'))) = counters w'"
    by (auto simp: healthy_fields b fresh3_world requests_def opts3_def)
  show ?thesis
    using fresh3_inv c healthy_fields E tr cnt two by blast
qed

lemma NextSeq_step:
  assumes inv: "pool_inv c w" and ne: "clients c \<noteq> []"
    and e: "ping_err e = None" "store_err e = None"
    and n: "counters w (db, collection, id') = Some n"
  shows "\<exists>c' w'. NextSeq e db collection id' c w = (Return (n + 1, None), c', w') \<and>
           pool_inv c' w' \<and> clients c' \<noteq> [] \<and> counters w' (db, collection, id') = Some (n + 1)"
proof -
  obtain s rest where c: "clients c = s # rest" using ne by (cases "clients c") auto
  have ok: "\<not> (ref (mem w s) = 0 \<and> ping_err e \<noteq> None \<and> isl (connect_out e))"
    using e by simp
  from NextSeq_props[OF inv c ok, of db collection id'] obtain c' w' where
    E: "NextSeq e db collection id' c w =
             (Return (case store_err e of
                        Some x \<Rightarrow> (0, Some x)
                      | None \<Rightarrow> (case counters w (db, collection, id') of
                                   None \<Rightarrow> (0, Some ErrNoDocuments)
                                 | Some n \<Rightarrow> (n + 1, None))), c', w')"
    and i': "pool_inv c' w'" and ne': "clients c' \<noteq> []"
    and cnt: "counters w' = (case store_err e of
                            Some x \<Rightarrow> counters w
                          | None \<Rightarrow> (case counters w (db, collection, id') of
                                       None \<Rightarrow> counters w
                                     | Some n \<Rightarrow> (counters w)((db, collection, id') \<mapsto> n + 1)))"
    by blast
  have E': "NextSeq e db collection id' c w = (Return (n + 1, None), c', w')"
    using E e n by simp
  have cnt': "counters w' (db, collection, id') = Some (n + 1)"
    using cnt e n by simp
  show ?thesis
    by (intro exI[of _ c'] exI[of _ w'] conjI) (fact E' i' ne' cnt')+
qed

text \<open>
  C8. Once a client is borrowed, \<open>NextSeq\<close> makes one \<open>FindOneAndUpdate\<close> request with
  filter \<open>{_id: id}\<close>, update \<open>{$inc: {seq: 1}}\<close> and \<open>ReturnDocument(After)\<close>, and returns
  the \<open>seq\<close> of the record after the increment; when no record has that identity it
  returns 0 with the error \<open>ErrNoDocuments\<close> and stores nothing. On a counter seeded at
  \<open>seq = 0\<close>, three consecutive calls with the store reachable return 1, 2 and 3.
\<close>

theorem NextSeq_returns_incremented_seq:
  assumes "pool_inv c w" and "clients c = s # rest"
  shows "(\<not> (ref (mem w s) = 0 \<and> ping_err e \<noteq> None \<and> isl (connect_out e)) \<longrightarrow>
           (\<exists>c' w'. NextSeq e db collection id' c w =
              (Return (case store_err e of
                         Some x \<Rightarrow> (0, Some x)
                       | None \<Rightarrow> (case counters w (db, collection, id') of
                                    None \<Rightarrow> (0, Some ErrNoDocuments)
                                  | Some n \<Rightarrow> (n + 1, None))), c', w') \<and>
              requests (trace w') = requests (trace w) @
                [EvFindOneAndUpdate (borrowed_conn e w s) db collection [''_id'' \<mapsto> BString id']
                   [''$inc'' \<mapsto> BDoc [''seq'' \<mapsto> BInt 1]] After] \<and>
              counters w' = (case store_err e of
                               Some x \<Rightarrow> counters w
                             | None \<Rightarrow> (case counters w (db, collection, id') of
                                          None \<Rightarrow> counters w
                                        | Some n \<Rightarrow> (counters w)((db, collection, id') \<mapsto> n + 1))))) \<and>
         (counters w (db, collection, id') = Some 0 \<and>
          ping_err e1 = None \<and> store_err e1 = None \<and>
          ping_err e2 = None \<and> store_err e2 = None \<and>
          ping_err e3 = None \<and> store_err e3 = None \<longrightarrow>
           (\<exists>c1 w1 c2 w2 c3 w3.
              NextSeq e1 db collection id' c w = (Return (1, None), c1, w1) \<and>
              NextSeq e2 db collection id' c1 w1 = (Return (2, None), c2, w2) \<and>
              NextSeq e3 db collection id' c2 w2 = (Return (3, None), c3, w3)))"
proof (intro conjI impI)
  assume ok: "\<not> (ref (mem w s) = 0 \<and> ping_err e \<noteq> None \<and> isl (connect_out e))"
  from NextSeq_props[OF assms ok, of db collection id']
  show "\<exists>c' w'. NextSeq e db collection id' c w =
              (Return (case store_err e of
                         Some x \<Rightarrow> (0, Some x)
                       | None \<Rightarrow> (case counters w (db, collection, id') of
                                    None \<Rightarrow> (0, Some ErrNoDocuments)
                                  | Some n \<Rightarrow> (n + 1, None))), c', w') \<and>
              requests (trace w') = requests (trace w) @
                [EvFindOneAndUpdate (borrowed_conn e w s) db collection [''_id'' \<mapsto> BString id']
                   [''$inc'' \<mapsto> BDoc [''seq'' \<mapsto> BInt 1]] After] \<and>
              counters w' = (case store_err e of
                               Some x \<Rightarrow> counters w
                             | None \<Rightarrow> (case counters w (db, collection, id') of
                                          None \<Rightarrow> counters w
                                        | Some n \<Rightarrow> (counters w)((db, collection, id') \<mapsto> n + 1)))"
    by blast
next
  assume h: "counters w (db, collection, id') = Some 0 \<and>
          ping_err e1 = None \<and> store_err e1 = None \<and>
          ping_err e2 = None \<and> store_err e2 = None \<and>
          ping_err e3 = None \<and> store_err e3 = None"
  have ne: "clients c \<noteq> []" using assms(2) by simp
  from NextSeq_step[OF assms(1) ne, of e1 db collection id' 0] h
  obtain c1 w1 where a1: "NextSeq e1 db collection id' c w = (Return (1, None), c1, w1)"
    and i1: "pool_inv c1 w1" and ne1: "clients c1 \<noteq> []"
    and n1: "counters w1 (db, collection, id') = Some 1" by auto
  from NextSeq_step[OF i1 ne1, of e2 db collection id' 1] h n1
  obtain c2 w2 where a2: "NextSeq e2 db collection id' c1 w1 = (Return (2, None), c2, w2)"
    and i2: "pool_inv c2 w2" and ne2: "clients c2 \<noteq> []"
    and n2: "counters w2 (db, collection, id') = Some 2" by auto
  from NextSeq_step[OF i2 ne2, of e3 db collection id' 2] h n2
  obtain c3 w3 where a3: "NextSeq e3 db collection id' c2 w2 = (Return (3, None), c3, w3)"
    by auto
  show "\<exists>c1 w1 c2 w2 c3 w3.
              NextSeq e1 db collection id' c w = (Return (1, None), c1, w1) \<and>
              NextSeq e2 db collection id' c1 w1 = (Return (2, None), c2, w2) \<and>
              NextSeq e3 db collection id' c2 w2 = (Return (3, None), c3, w3)"
    using a1 a2 a3 by blast
qed

lemma seeded3_inv: "pool_inv pool3 seeded3"
  using fresh3_inv by (simp add: pool_inv_def seeded3_def)

theorem NextSeq_returns_incremented_seq_witness:
  "pool_inv pool3 seeded3 \<and> clients pool3 = 0 # [1, 2] \<and>
   counters seeded3 (''test'', ''counters'', ''test'') = Some 0 \<and>
   counters seeded3 (''test'', ''counters'', ''absent'') = None \<and>
   ping_err healthy = None \<and> store_err healthy = None \<and>
   (\<exists>c1 w1 c2 w2 c3 w3.
      NextSeq healthy ''test'' ''counters'' ''test'' pool3 seeded3 = (Return (1, None), c1, w1) \<and>
      NextSeq healthy ''test'' ''counters'' ''test'' c1 w1 = (Return (2, None), c2, w2) \<and>
      NextSeq healthy ''test'' ''counters'' ''test'' c2 w2 = (Return (3, None), c3, w3)) \<and>
   (\<exists>c' w'. NextSeq healthy ''test'' ''counters'' ''absent'' pool3 seeded3
              = (Return (0, Some ErrNoDocuments), c', w') \<and> counters w' = counters seeded3)"
proof -
  have c: "clients pool3 = 0 # [1, 2]" by (simp add: pool3_def)
  have s0: "counters seeded3 (''test'', ''counters'', ''test'') = Some 0"
    and s1: "counters seeded3 (''test'', ''counters'', ''absent'') = None"
    by (simp_all add: seeded3_def)
  have ok: "\<not> (ref (mem seeded3 0) = 0 \<and> ping_err healthy \<noteq> None \<and> isl (connect_out healthy))"
    by (simp add: healthy_fields)
  note T1 = NextSeq_returns_incremented_seq[OF seeded3_inv c,
      of healthy "''test''" "''counters''" "''test''" healthy healthy healthy]
  note T2 = NextSeq_returns_incremented_seq[OF seeded3_inv c,
      of healthy "''test''" "''counters''" "''absent''" healthy healthy healthy]
  have three: "\<exists>c1 w1 c2 w2 c3 w3.
      NextSeq healthy ''test'' ''counters'' ''test'' pool3 seeded3 = (Return (1, None), c1, w1) \<and>
      NextSeq healthy ''test'' ''counters'' ''test'' c1 w1 = (Return (2, None), c2, w2) \<and>
      NextSeq healthy ''test'' ''counters'' ''test'' c2 w2 = (Return (3, None), c3, w3)"
    using T1 s0 healthy_fields by blast
  have "\<exists>c' w'. NextSeq healthy ''test'' ''counters'' ''absent'' pool3 seeded3 =
              (Return (case store_err healthy of
                         Some x \<Rightarrow> (0, Some x)
                       | None \<Rightarrow> (case counters seeded3 (''test'', ''counters'', ''absent'') of
                                    None \<Rightarrow> (0, Some ErrNoDocuments)
                                  | Some n \<Rightarrow> (n + 1, None))), c', w') \<and>
              requests (trace w') = requests (trace seeded3) @
                [EvFindOneAndUpdate (borrowed_conn healthy seeded3 0) ''test'' ''counters'' [''_id'' \<mapsto> BString ''absent'']
                   [''$inc'' \<mapsto> BDoc [''seq'' \<mapsto> BInt 1]] After] \<and>
              counters w' = (case store_err healthy of
                               Some x \<Rightarrow> counters seeded3
                             | None \<Rightarrow> (case counters seeded3 (''test'', ''counters'', ''absent'') of
                                          None \<Rightarrow> counters seeded3
                                        | Some n \<Rightarrow> (counters seeded3)((''test'', ''counters'', ''absent'') \<mapsto> n + 1)))"
    using T2 ok by blast
  then have absent: "\<exists>c' w'. NextSeq healthy ''test'' ''counters'' ''absent'' pool3 seeded3
              = (Return (0, Some ErrNoDocuments), c', w') \<and> counters w' = counters seeded3"
    by (auto simp: s1 healthy_fields)
  show ?thesis
    using seeded3_inv c s0 s1 healthy_fields three absent by blast
qed

text \<open>
  C10. Once a client is borrowed, \<open>ensureIndex\<close> makes one \<open>CreateOne\<close> request: its keys
  are the given fields in the given order, each with value 1, its options are sparse
  and carry the given uniqueness flag. \<open>EnsureIndex\<close> is \<open>ensureIndex\<close> with the flag
  false, \<open>EnsureUniqueIndex\<close> with the flag true.
\<close>

theorem ensureIndex_request_shape:
  assumes "pool_inv c w" and "clients c = s # rest"
    and "\<not> (ref (mem w s) = 0 \<and> ping_err e \<noteq> None \<and> isl (connect_out e))"
  shows "(\<exists>c' w'. ensureIndex e db collection key unique c w = (Return (store_err e), c', w') \<and>
            requests (trace w') = requests (trace w) @
              [EvCreateOne (borrowed_conn e w s) db collection
                 \<lparr>Keys = map (\<lambda>k. (k, BInt 1)) key,
                  Options = \<lparr>Unique = Some unique, Sparse = Some True\<rparr>\<rparr>]) \<and>
         EnsureIndex e db collection key c w = ensureIndex e db collection key False c w \<and>
         EnsureUniqueIndex e db collection key c w = ensureIndex e db collection key True c w"
proof (intro conjI)
  from ensureIndex_props[OF assms, of db collection key unique]
  show "\<exists>c' w'. ensureIndex e db collection key unique c w = (Return (store_err e), c', w') \<and>
            requests (trace w') = requests (trace w) @
              [EvCreateOne (borrowed_conn e w s) db collection
                 \<lparr>Keys = map (\<lambda>k. (k, BInt 1)) key,
                  Options = \<lparr>Unique = Some unique, Sparse = Some True\<rparr>\<rparr>]"
    by blast
qed (simp_all add: EnsureIndex_def EnsureUniqueIndex_def)

theorem ensureIndex_request_shape_witness:
  "pool_inv pool3 (snd fresh3) \<and> clients pool3 = 0 # [1, 2] \<and> ping_err healthy = None \<and>
   (\<exists>c' w'. EnsureUniqueIndex healthy ''test'' ''counters'' [''key1'', ''key2''] pool3 (snd fresh3)
               = (Return None, c', w') \<and>
      requests (trace w') =
        [EvCreateOne 100 ''test'' ''counters''
           \<lparr>Keys = [(''key1'', BInt 1), (''key2'', BInt 1)],
            Options = \<lparr>Unique = Some True, Sparse = Some True\<rparr>\<rparr>])"
proof -
  have c: "clients pool3 = 0 # [1, 2]" by (simp add: pool3_def)
  have ok: "\<not> (ref (mem (snd fresh3) 0) = 0 \<and> ping_err healthy \<noteq> None \<and> isl (connect_out healthy))"
    by (simp add: healthy_fields)
  have b: "borrowed_conn healthy (snd fresh3) 0 = 100"
    using fresh3_world(3) by (simp add: borrowed_conn_def healthy_fields)
  note T = ensureIndex_request_shape[OF fresh3_inv c ok,
      of "''test''" "''counters''" "[''key1'', ''key2'']" True]
  have "\<exists>c' w'. EnsureUniqueIndex healthy ''test'' ''counters'' [''key1'', ''key2''] pool3 (snd fresh3)
               = (Return None, c', w') \<and>
      requests (trace w') =
        [EvCreateOne 100 ''test'' ''counters''
           \<lparr>Keys = [(''key1'', BInt 1), (''key2'', BInt 1)],
            Options = \<lparr>Unique = Some True, Sparse = Some True\<rparr>\<rparr>]"
    using T by (simp add: healthy_fields b fresh3_world requests_def opts3_def)
  then show ?thesis using fresh3_inv c healthy_fields by blast
qed

end
